theory Spec2Isabelle
  imports Complex_Main "HOL-Library.Word"
begin

section \<open>Errors\<close>

text \<open>
  The exceptions the framework throws are values: \<open>std::out_of_range\<close>,
  \<open>std::logic_error\<close> and \<open>std::runtime_error\<close>. A load or store through
  \<open>pixels.data()\<close> or \<open>glyphBitmap.data()\<close> that leaves the vector has no defined
  behaviour in C++; the model stops there with \<open>undefined_behaviour\<close>, so that such an
  access is a visible branch and never a silent value.
\<close>

datatype error = out_of_range | logic_error | runtime_error | undefined_behaviour

section \<open>The image cache (RGBAImage.cpp, lines 336-365)\<close>

text \<open>
  A \<open>std::shared_ptr<RGBAImage>\<close> is modelled by the identity of the object it
  points to, a natural number handed out by \<open>std::make_shared\<close>. The process state
  around the cache holds the cache itself, the next fresh identity, the log of the calls
  of \<open>RGBAImage::Load\<close> (the decodes) and which paths \<open>stbi_load\<close> can decode.
\<close>

type_synonym path = string
type_synonym image_ptr = nat

record RGBAImageCache =
  m_cacheMutex :: bool
  m_imageCache :: "path \<rightharpoonup> image_ptr"

record process =
  cache :: RGBAImageCache
  next_object :: nat
  decodes :: "path list"
  decodable :: "path \<Rightarrow> bool"

definition Init :: "RGBAImageCache \<Rightarrow> RGBAImageCache" where
  "Init c = (if \<not> m_cacheMutex c then c\<lparr>m_cacheMutex := True\<rparr> else c)"

text \<open>
  Modelled from the spec: \<open>RGBAImageCache::IsValid\<close> is declared in RGBAImage.h, which
  is not among the sources. The spec says the cache is "guarded by a mutex that must be
  explicitly initialized before use": the cache is valid when its mutex exists.
\<close>

definition IsValid :: "RGBAImageCache \<Rightarrow> bool" where
  "IsValid c = m_cacheMutex c"

text \<open>
  A call of \<open>RGBAImageCache::Load\<close> runs in three sections. The first and the third
  hold the mutex, the second (the decode) holds nothing. A call in progress is one of:
\<close>

datatype call =
    Entry path
  | Missed path
  | Decoded path image_ptr
  | Returned path image_ptr
  | Raised path error

text \<open>Lines 345-356: the validity check, then the lookup under the lock.\<close>

definition Load_lookup :: "process \<Rightarrow> path \<Rightarrow> call" where
  "Load_lookup s p =
     (if \<not> IsValid (cache s) then Raised p logic_error
      else (case m_imageCache (cache s) p of
              Some q \<Rightarrow> Returned p q
            | None \<Rightarrow> Missed p))"

text \<open>
  Lines 358-360: \<open>RGBAImage::Load(path)\<close> and \<open>std::make_shared\<close>, outside the lock.
  \<open>RGBAImage::Load\<close> throws \<open>std::runtime_error\<close> when the file cannot be decoded.
\<close>

definition Load_decode :: "process \<Rightarrow> path \<Rightarrow> call \<times> process" where
  "Load_decode s p =
     (if decodable s p
      then (Decoded p (next_object s),
            s\<lparr>next_object := Suc (next_object s), decodes := decodes s @ [p]\<rparr>)
      else (Raised p runtime_error, s\<lparr>decodes := decodes s @ [p]\<rparr>))"

text \<open>
  Lines 362-364: \<open>m_imageCache.emplace(path, image).first->second\<close> under the lock; an
  existing entry is kept and returned.
\<close>

definition Load_emplace :: "process \<Rightarrow> path \<Rightarrow> image_ptr \<Rightarrow> call \<times> process" where
  "Load_emplace s p img =
     (case m_imageCache (cache s) p of
        Some q \<Rightarrow> (Returned p q, s)
      | None \<Rightarrow>
          (Returned p img,
           s\<lparr>cache := (cache s)\<lparr>m_imageCache := (m_imageCache (cache s))(p \<mapsto> img)\<rparr>\<rparr>))"

text \<open>One section of one call.\<close>

fun advance :: "call \<Rightarrow> process \<Rightarrow> call \<times> process" where
  "advance (Entry p) s = (Load_lookup s p, s)"
| "advance (Missed p) s = Load_decode s p"
| "advance (Decoded p img) s = Load_emplace s p img"
| "advance (Returned p q) s = (Returned p q, s)"
| "advance (Raised p e) s = (Raised p e, s)"

text \<open>\<open>Load\<close> called on its own: the three sections one after the other.\<close>

definition Load :: "process \<Rightarrow> path \<Rightarrow> (error + image_ptr) \<times> process" where
  "Load s p =
     (let (c1, s1) = advance (Entry p) s;
          (c2, s2) = advance c1 s1;
          (c3, s3) = advance c2 s2
      in (case c3 of
            Returned _ q \<Rightarrow> (Inr q, s3)
          | Raised _ e \<Rightarrow> (Inl e, s3)
          | _ \<Rightarrow> (Inl undefined_behaviour, s3)))"


text \<open>
  Calls of \<open>Load\<close> that run at the same time: the mutex makes the first and the third
  section of a call atomic, and the decode touches no shared state of the cache, so an
  execution is a sequence of sections of the calls in some order. A schedule is the list
  of the numbers of the calls that run their next section.
\<close>

definition step :: "nat \<Rightarrow> process \<times> call list \<Rightarrow> process \<times> call list" where
  "step i sys =
     (if i < length (snd sys)
      then (let (c', s') = advance (snd sys ! i) (fst sys) in (s', (snd sys)[i := c']))
      else sys)"

fun run :: "nat list \<Rightarrow> process \<times> call list \<Rightarrow> process \<times> call list" where
  "run [] sys = sys"
| "run (i # sched) sys = run sched (step i sys)"

text \<open>
  The decodes of the path \<open>p\<close> that a call can still perform in the process state
  \<open>s\<close>: one when it has missed the cache and not yet decoded, one when it has not yet
  looked the path up and the cache does not hold it, none otherwise. Then how many
  sections a call has left at most.
\<close>

fun may_decode :: "process \<Rightarrow> path \<Rightarrow> call \<Rightarrow> nat" where
  "may_decode s p (Entry p') =
     (if p' = p \<and> IsValid (cache s) \<and> m_imageCache (cache s) p = None then 1 else 0)"
| "may_decode s p (Missed p') = (if p' = p then 1 else 0)"
| "may_decode s p (Decoded p' img) = 0"
| "may_decode s p (Returned p' q) = 0"
| "may_decode s p (Raised p' e) = 0"

fun remaining :: "call \<Rightarrow> nat" where
  "remaining (Entry p) = 3"
| "remaining (Missed p) = 2"
| "remaining (Decoded p img) = 1"
| "remaining (Returned p q) = 0"
| "remaining (Raised p e) = 0"

text \<open>A call on the path \<open>p\<close> that has not raised.\<close>

fun running_on :: "path \<Rightarrow> call \<Rightarrow> bool" where
  "running_on p (Entry p') = (p' = p)"
| "running_on p (Missed p') = (p' = p)"
| "running_on p (Decoded p' img) = (p' = p)"
| "running_on p (Returned p' q) = (p' = p)"
| "running_on p (Raised p' e) = False"

text \<open>Every call that has returned holds the image the cache has for its path.\<close>

definition returned_in_cache :: "process \<times> call list \<Rightarrow> bool" where
  "returned_in_cache sys \<longleftrightarrow>
     (\<forall>c \<in> set (snd sys). \<forall>p q. c = Returned p q \<longrightarrow> m_imageCache (cache (fst sys)) p = Some q)"

section \<open>AcquireWaitReleaseImage\<close>






section \<open>Colours, rectangles and images (RGBAImage.cpp, lines 38-41 and 133-136)\<close>

text \<open>
  A C \<open>int\<close> is an \<open>int\<close> between \<open>-2^31\<close> and \<open>2^31 - 1\<close>, a \<open>float\<close> is the
  \<open>real\<close> it stands for. Where the operands of an \<open>int\<close> operation are not bounded by
  the image (the sums and differences of a rectangle's offset and extent, the differences
  with the border thickness, the text cursor's row and the glyph's destination), the
  result is wrapped to 32 bits by \<open>int32\<close>, as the compiled code does. In \<open>DrawRect\<close>
  and in the pixel indices no operation is wrapped: the theorems about them carry
  hypotheses under which every value fits. The product of the blend is rounded to
  binary32 by \<open>fl32\<close>; the product \<open>255 * channel\<close> of \<open>AsRGBA\<close> and the arithmetic of
  the text cursor are exact.
\<close>

record RGBA8Color =
  Channels_R :: "8 word"
  Channels_G :: "8 word"
  Channels_B :: "8 word"
  Channels_A :: "8 word"

record XrColor4f =
  col_r :: real
  col_g :: real
  col_b :: real
  col_a :: real

record XrRect2Di =
  offset_x :: int
  offset_y :: int
  extent_width :: int
  extent_height :: int

record RGBAImage =
  width :: int
  height :: int
  pixels :: "RGBA8Color list"
  isSrgb :: bool

text \<open>The cast \<open>(int)f\<close> truncates towards zero; \<open>(uint8_t)f\<close> keeps the low 8 bits
  of the truncated value (for a value outside 0..255 C++ leaves the result open).\<close>

definition float_to_int :: "real \<Rightarrow> int" where
  "float_to_int v = (if 0 \<le> v then \<lfloor>v\<rfloor> else \<lceil>v\<rceil>)"

definition float_to_uint8 :: "real \<Rightarrow> 8 word" where
  "float_to_uint8 v = word_of_int (float_to_int v)"

text \<open>\<open>std::lround\<close>: to the nearest integer, halves away from zero.\<close>

definition lround :: "real \<Rightarrow> int" where
  "lround v = (if 0 \<le> v then \<lfloor>v + 1 / 2\<rfloor> else \<lceil>v - 1 / 2\<rceil>)"

text \<open>The value of a 32-bit \<open>int\<close> operation whose exact result is \<open>v\<close>: two's
  complement wrap-around.\<close>

definition int32 :: "int \<Rightarrow> int" where
  "int32 v = (v + 2 ^ 31) mod 2 ^ 32 - 2 ^ 31"

text \<open>
  Rounding to binary32 (24 significant bits, to nearest, ties to even), for a value of
  magnitude below \<open>2^128\<close>. \<open>binade v\<close> is the exponent \<open>e\<close> with
  \<open>2^e \<le> v < 2^(e+1)\<close>, and -126 in the subnormal range; the value is rounded to a
  multiple of \<open>2^(e-23)\<close>.
\<close>

fun ilog2 :: "nat \<Rightarrow> nat" where
  "ilog2 n = (if n < 2 then 0 else Suc (ilog2 (n div 2)))"

declare ilog2.simps [simp del]

definition binade :: "real \<Rightarrow> int" where
  "binade v =
     (if 1 \<le> v then int (ilog2 (nat \<lfloor>v\<rfloor>))
      else if 0 < v then max (- int (ilog2 (nat (\<lceil>1 / v\<rceil> - 1))) - 1) (- 126)
      else - 126)"

definition round_even :: "real \<Rightarrow> int" where
  "round_even v =
     (if v - of_int \<lfloor>v\<rfloor> < 1 / 2 then \<lfloor>v\<rfloor>
      else if v - of_int \<lfloor>v\<rfloor> > 1 / 2 then \<lfloor>v\<rfloor> + 1
      else if even \<lfloor>v\<rfloor> then \<lfloor>v\<rfloor> else \<lfloor>v\<rfloor> + 1)"

definition fl32_pos :: "real \<Rightarrow> real" where
  "fl32_pos v =
     (let e = binade v in
      if 23 \<le> e then of_int (round_even (v / 2 ^ nat (e - 23))) * 2 ^ nat (e - 23)
      else of_int (round_even (v * 2 ^ nat (23 - e))) / 2 ^ nat (23 - e))"

definition fl32 :: "real \<Rightarrow> real" where
  "fl32 v = (if 0 \<le> v then fl32_pos v else - fl32_pos (- v))"

definition AsRGBA :: "real \<Rightarrow> real \<Rightarrow> real \<Rightarrow> real \<Rightarrow> RGBA8Color" where
  "AsRGBA r g b a =
     \<lparr>Channels_R = float_to_uint8 (255 * r), Channels_G = float_to_uint8 (255 * g),
      Channels_B = float_to_uint8 (255 * b), Channels_A = float_to_uint8 (255 * a)\<rparr>"

text \<open>The invariant of the data model: pixel count = width * height (and the count
  fits the 32-bit \<open>int\<close> the constructor computes it in).\<close>

definition image_wf :: "RGBAImage \<Rightarrow> bool" where
  "image_wf img \<longleftrightarrow>
     0 \<le> width img \<and> 0 \<le> height img
     \<and> int (length (pixels img)) = width img * height img
     \<and> width img * height img < 2 ^ 31"

text \<open>The pixel in column \<open>i\<close> of row \<open>j\<close>: \<open>pixels[j * width + i]\<close>.\<close>

definition pixel_index :: "RGBAImage \<Rightarrow> int \<Rightarrow> int \<Rightarrow> nat" where
  "pixel_index img i j = nat (j * width img + i)"

definition pixel_at :: "RGBAImage \<Rightarrow> int \<Rightarrow> int \<Rightarrow> RGBA8Color" where
  "pixel_at img i j = pixels img ! pixel_index img i j"

subsection \<open>Pixel memory\<close>

text \<open>
  The memory behind \<open>pixels.data()\<close>, with the log of the indices stored to (latest
  first), so that "written exactly once" and "never written" can be stated. A load or a
  store outside the vector is \<open>undefined_behaviour\<close>.
\<close>

type_synonym pixel_memory = "RGBA8Color list \<times> nat list"

definition load :: "pixel_memory \<Rightarrow> int \<Rightarrow> error + RGBA8Color" where
  "load m i =
     (if 0 \<le> i \<and> i < int (length (fst m)) then Inr (fst m ! nat i)
      else Inl undefined_behaviour)"

definition store :: "pixel_memory \<Rightarrow> int \<Rightarrow> RGBA8Color \<Rightarrow> error + pixel_memory" where
  "store m i c =
     (if 0 \<le> i \<and> i < int (length (fst m)) then Inr ((fst m)[nat i := c], nat i # snd m)
      else Inl undefined_behaviour)"

text \<open>How often the call that produced the log \<open>lg\<close> stored to pixel \<open>(i, j)\<close>.\<close>

definition stores_to :: "RGBAImage \<Rightarrow> nat list \<Rightarrow> int \<Rightarrow> int \<Rightarrow> nat" where
  "stores_to img lg i j = count_list lg (pixel_index img i j)"

section \<open>DrawRect and DrawRectBorder (RGBAImage.cpp, lines 278-319)\<close>

text \<open>
  The loop \<open>for (int col = c0; col < stop; col++) *(start + col) = color32\<close>, which
  both functions run (lines 287-289, 303-305, 309-311 and 314-316); \<open>start\<close> is the
  offset of the pointer from \<open>pixels.data()\<close>.
\<close>

function fill_cols :: "int \<Rightarrow> int \<Rightarrow> int \<Rightarrow> RGBA8Color \<Rightarrow> pixel_memory \<Rightarrow> error + pixel_memory" where
  "fill_cols start col stop color32 m =
     (if col < stop
      then (case store m (start + col) color32 of
              Inl e \<Rightarrow> Inl e
            | Inr m' \<Rightarrow> fill_cols start (col + 1) stop color32 m')
      else Inr m)"
  by pat_completeness auto
termination
  by (relation "measure (\<lambda>(start, col, stop, color32, m). nat (stop - col))") auto

declare fill_cols.simps [simp del]

text \<open>Lines 285-290: the rows of \<open>DrawRect\<close>; \<open>wd\<close> is the image's width.\<close>

function DrawRect_rows ::
  "int \<Rightarrow> int \<Rightarrow> int \<Rightarrow> int \<Rightarrow> int \<Rightarrow> int \<Rightarrow> RGBA8Color \<Rightarrow> pixel_memory \<Rightarrow> error + pixel_memory" where
  "DrawRect_rows wd x y w h row color32 m =
     (if row < h
      then (case fill_cols ((row + y) * wd + x) 0 w color32 m of
              Inl e \<Rightarrow> Inl e
            | Inr m' \<Rightarrow> DrawRect_rows wd x y w h (row + 1) color32 m')
      else Inr m)"
  by pat_completeness auto
termination
  by (relation "measure (\<lambda>(wd, x, y, w, h, row, color32, m). nat (h - row))") auto

declare DrawRect_rows.simps [simp del]

text \<open>Lines 278-291. The result is the image and the log of the stores of this call.\<close>

definition DrawRect ::
  "RGBAImage \<Rightarrow> int \<Rightarrow> int \<Rightarrow> int \<Rightarrow> int \<Rightarrow> XrColor4f \<Rightarrow> error + RGBAImage \<times> nat list" where
  "DrawRect img x y w h color =
     (if x + w > width img \<or> y + h > height img then Inl out_of_range
      else (let color32 = AsRGBA (col_r color) (col_g color) (col_b color) (col_a color) in
            case DrawRect_rows (width img) x y w h 0 color32 (pixels img, []) of
              Inl e \<Rightarrow> Inl e
            | Inr m \<Rightarrow> Inr (img\<lparr>pixels := fst m\<rparr>, snd m)))"

text \<open>Lines 300-318: the rows of \<open>DrawRectBorder\<close>. The two differences with the
  thickness are 32-bit operations.\<close>

function DrawRectBorder_rows ::
  "int \<Rightarrow> int \<Rightarrow> int \<Rightarrow> int \<Rightarrow> int \<Rightarrow> int \<Rightarrow> int \<Rightarrow> RGBA8Color \<Rightarrow> pixel_memory \<Rightarrow> error + pixel_memory" where
  "DrawRectBorder_rows wd x y w h thickness row color32 m =
     (if row < h
      then (let start = (row + y) * wd + x in
            case (if row < thickness \<or> row \<ge> int32 (h - thickness)
                  then fill_cols start 0 w color32 m
                  else (let leftBorderEnd = min thickness w in
                        case fill_cols start 0 leftBorderEnd color32 m of
                          Inl e \<Rightarrow> Inl e
                        | Inr m1 \<Rightarrow>
                            (let rightBorderBegin = max (int32 (w - thickness)) 0 in
                             fill_cols start rightBorderBegin w color32 m1))) of
              Inl e \<Rightarrow> Inl e
            | Inr m' \<Rightarrow> DrawRectBorder_rows wd x y w h thickness (row + 1) color32 m')
      else Inr m)"
  by pat_completeness auto
termination
  by (relation "measure (\<lambda>(wd, x, y, w, h, thickness, row, color32, m). nat (h - row))") auto

declare DrawRectBorder_rows.simps [simp del]

text \<open>Lines 293-319.\<close>

definition DrawRectBorder ::
  "RGBAImage \<Rightarrow> int \<Rightarrow> int \<Rightarrow> int \<Rightarrow> int \<Rightarrow> int \<Rightarrow> XrColor4f \<Rightarrow> error + RGBAImage \<times> nat list" where
  "DrawRectBorder img x y w h thickness color =
     (if x < 0 \<or> y < 0 \<or> w < 0 \<or> h < 0 \<or> x + w > width img \<or> y + h > height img
      then Inl out_of_range
      else (let color32 = AsRGBA (col_r color) (col_g color) (col_b color) (col_a color) in
            case DrawRectBorder_rows (width img) x y w h thickness 0 color32 (pixels img, []) of
              Inl e \<Rightarrow> Inl e
            | Inr m \<Rightarrow> Inr (img\<lparr>pixels := fst m\<rparr>, snd m)))"

section \<open>The baked font and its cache (RGBAImage.cpp, lines 43-128)\<close>

text \<open>
  Modelled from the spec: \<open>stbtt_bakedchar\<close> is declared in stb_truetype.h, which is
  not among the sources. The spec calls it the "per-character layout metrics (advance,
  bearing, bounding box)": the box \<open>x0, y0, x1, y1\<close> of the glyph in the atlas (unsigned,
  so natural numbers), the bearing \<open>xoff, yoff\<close> and the advance.
\<close>

record stbtt_bakedchar =
  bc_x0 :: nat
  bc_y0 :: nat
  bc_x1 :: nat
  bc_y1 :: nat
  bc_xoff :: real
  bc_yoff :: real
  bc_xadvance :: real

text \<open>Lines 120-127. \<open>m_bakedChars\<close> is a \<open>std::array\<close> of 95 entries, indexed 0..94.\<close>

record BakedFont =
  glyphBitmap :: "8 word list"
  m_bakedChars :: "nat \<Rightarrow> stbtt_bakedchar"
  m_bitmapWidth :: int
  m_bitmapHeight :: int

definition StartChar :: int where
  "StartChar = 32"

definition EndChar :: int where
  "EndChar = 126"

text \<open>The value of a \<open>char\<close>, taken as signed (bytes from 128 on are negative).\<close>

definition char_value :: "char \<Rightarrow> int" where
  "char_value c = (let n = int (of_char c) in if n < 128 then n else n - 256)"

text \<open>Lines 109-113.\<close>

definition GetBakedChar :: "BakedFont \<Rightarrow> char \<Rightarrow> stbtt_bakedchar" where
  "GetBakedChar font c =
     (let safeChar = (if char_value c < StartChar \<or> char_value c > EndChar
                      then char_value (CHR ''_'') else char_value c)
      in m_bakedChars font (nat (safeChar - StartChar)))"

text \<open>Lines 115-118: the offset of the glyph's row from \<open>glyphBitmap.data()\<close>.\<close>

definition GetBakedCharRow :: "BakedFont \<Rightarrow> stbtt_bakedchar \<Rightarrow> int \<Rightarrow> int" where
  "GetBakedCharRow font bc charY = (charY + int (bc_y0 bc)) * m_bitmapWidth font"

definition glyph_load :: "BakedFont \<Rightarrow> int \<Rightarrow> error + 8 word" where
  "glyph_load font i =
     (if 0 \<le> i \<and> i < int (length (glyphBitmap font)) then Inr (glyphBitmap font ! nat i)
      else Inl undefined_behaviour)"

text \<open>
  Lines 96-107. The constructor \<open>BakedFont(pixelHeight)\<close> (lines 46-94) reads the font
  file and calls \<open>stbtt_BakeFontBitmap\<close> of stb_truetype, which is not among the sources:
  its outcome, a font or \<open>std::runtime_error\<close>, is the parameter \<open>bake\<close>. The heap is
  the list of the fonts constructed so far in the process; a
  \<open>std::shared_ptr<BakedFont>\<close> is the position of its font there. The map
  \<open>s_bakedFonts\<close> is declared at line 98 as a local variable with no \<open>static\<close>: it is
  empty at every call, and what line 102 inserts is gone at the return.
\<close>

type_synonym font_ptr = nat

definition GetOrCreate ::
  "(int \<Rightarrow> error + BakedFont) \<Rightarrow> BakedFont list \<Rightarrow> int \<Rightarrow> (error + font_ptr) \<times> BakedFont list" where
  "GetOrCreate bake heap pixelHeight =
     (let s_bakedFonts = (Map.empty :: int \<rightharpoonup> font_ptr) in
      case s_bakedFonts pixelHeight of
        None \<Rightarrow>
          (case bake pixelHeight of
             Inl e \<Rightarrow> (Inl e, heap)
           | Inr f \<Rightarrow>
               (let font = length heap;
                    heap' = heap @ [f];
                    s_bakedFonts' = s_bakedFonts(pixelHeight \<mapsto> font)
                in (Inr font, heap')))
      | Some font \<Rightarrow> (Inr font, heap))"

section \<open>PutText (RGBAImage.cpp, lines 183-276)\<close>

text \<open>
  Modelled from the spec: the enumeration \<open>WordWrap\<close> is declared in RGBAImage.h, which
  is not among the sources; the code names \<open>WordWrap::Enabled\<close>, the spec speaks of
  wrapping "enabled" and "disabled".
\<close>

datatype WordWrap = Disabled | Enabled

text \<open>Lines 264-270: the blend of one channel, and of the four channels of a pixel.
  The glyph pixel is converted to \<open>float\<close> (exactly) and multiplied with the colour in
  binary32; the rounded product is cast to \<open>uint8_t\<close>. The second summand is an \<open>int\<close>
  division, and the sum is stored into a \<open>uint8_t\<close>.\<close>

definition blend_channel :: "8 word \<Rightarrow> real \<Rightarrow> 8 word \<Rightarrow> 8 word" where
  "blend_channel srcGlyphPixel c d =
     word_of_int (uint (float_to_uint8 (fl32 (real_of_int (uint srcGlyphPixel) * c)))
                  + (uint d * (255 - uint srcGlyphPixel)) div 255)"

definition blend_pixel :: "8 word \<Rightarrow> XrColor4f \<Rightarrow> RGBA8Color \<Rightarrow> RGBA8Color" where
  "blend_pixel srcGlyphPixel color pixel =
     \<lparr>Channels_R = blend_channel srcGlyphPixel (col_r color) (Channels_R pixel),
      Channels_G = blend_channel srcGlyphPixel (col_g color) (Channels_G pixel),
      Channels_B = blend_channel srcGlyphPixel (col_b color) (Channels_B pixel),
      Channels_A = blend_channel srcGlyphPixel (col_a color) (Channels_A pixel)\<rparr>"

text \<open>Lines 255-271: the columns of one glyph row. \<open>srcGlyphRow\<close> and
  \<open>destImageRow\<close> are the offsets of the two row pointers. The destination column and
  the right edge \<open>rect.offset.x + rect.extent.width\<close> are 32-bit sums.\<close>

function PutText_cols ::
  "RGBAImage \<Rightarrow> XrRect2Di \<Rightarrow> BakedFont \<Rightarrow> stbtt_bakedchar \<Rightarrow> XrColor4f \<Rightarrow> real \<Rightarrow> int \<Rightarrow> int \<Rightarrow> int \<Rightarrow> int
   \<Rightarrow> pixel_memory \<Rightarrow> error + pixel_memory" where
  "PutText_cols img rect font bakedChar color xadv srcGlyphRow destImageRow characterWidth cx m =
     (if cx < characterWidth
      then (let destX = int32 (int32 (lround (bc_xoff bakedChar + xadv)) + cx) in
            if destX < 0 \<or> destX \<ge> width img \<or> destX < offset_x rect
               \<or> destX \<ge> int32 (offset_x rect + extent_width rect)
            then PutText_cols img rect font bakedChar color xadv srcGlyphRow destImageRow
                   characterWidth (cx + 1) m
            else (case glyph_load font (srcGlyphRow + (cx + int (bc_x0 bakedChar))) of
                    Inl e \<Rightarrow> Inl e
                  | Inr srcGlyphPixel \<Rightarrow>
                      (case load m (destImageRow + destX) of
                         Inl e \<Rightarrow> Inl e
                       | Inr pixel \<Rightarrow>
                           (case store m (destImageRow + destX)
                                   (blend_pixel srcGlyphPixel color pixel) of
                              Inl e \<Rightarrow> Inl e
                            | Inr m' \<Rightarrow>
                                PutText_cols img rect font bakedChar color xadv srcGlyphRow
                                  destImageRow characterWidth (cx + 1) m'))))
      else Inr m)"
  by pat_completeness auto
termination
  by (relation "measure (\<lambda>(img, rect, font, bakedChar, color, xadv, srcGlyphRow, destImageRow,
        characterWidth, cx, m). nat (characterWidth - cx))") auto

declare PutText_cols.simps [simp del]

text \<open>Lines 244-272: the rows of one glyph. The destination row and the lower edge
  \<open>rect.offset.y + rect.extent.height\<close> are 32-bit sums.\<close>

function PutText_rows ::
  "RGBAImage \<Rightarrow> XrRect2Di \<Rightarrow> BakedFont \<Rightarrow> stbtt_bakedchar \<Rightarrow> XrColor4f \<Rightarrow> real \<Rightarrow> int \<Rightarrow> int \<Rightarrow> int \<Rightarrow> int
   \<Rightarrow> pixel_memory \<Rightarrow> error + pixel_memory" where
  "PutText_rows img rect font bakedChar color xadv yadv characterWidth characterHeight cy m =
     (if cy < characterHeight
      then (let destY = int32 (int32 (yadv + cy) + float_to_int (bc_yoff bakedChar)) in
            if destY < 0 \<or> destY \<ge> height img \<or> destY < offset_y rect
               \<or> destY \<ge> int32 (offset_y rect + extent_height rect)
            then PutText_rows img rect font bakedChar color xadv yadv characterWidth
                   characterHeight (cy + 1) m
            else (let srcGlyphRow = GetBakedCharRow font bakedChar cy;
                      destImageRow = destY * width img in
                  case PutText_cols img rect font bakedChar color xadv srcGlyphRow destImageRow
                         characterWidth 0 m of
                    Inl e \<Rightarrow> Inl e
                  | Inr m' \<Rightarrow>
                      PutText_rows img rect font bakedChar color xadv yadv characterWidth
                        characterHeight (cy + 1) m'))
      else Inr m)"
  by pat_completeness auto
termination
  by (relation "measure (\<lambda>(img, rect, font, bakedChar, color, xadv, yadv, characterWidth,
        characterHeight, cy, m). nat (characterHeight - cy))") auto

declare PutText_rows.simps [simp del]

text \<open>The variables of the loop over the text: the two cursors, the pixel memory and
  the lines printed by \<open>ReportConsoleOnlyF\<close> (each entry is the text reported).\<close>

record put_state =
  xadvance :: real
  yadvance :: int
  memory :: pixel_memory
  warnings :: "string list"

text \<open>Lines 205-209: \<open>w\<close> runs over the text from the current position while
  \<open>*w > ' '\<close>; the body looks up \<open>*text\<close>, the current character \<open>c\<close>, at every
  step.\<close>

fun RemainingWordWidth :: "BakedFont \<Rightarrow> char \<Rightarrow> string \<Rightarrow> real \<Rightarrow> real" where
  "RemainingWordWidth font c [] remainingWordWidth = remainingWordWidth"
| "RemainingWordWidth font c (w # ws) remainingWordWidth =
     (if char_value w > char_value (CHR '' '')
      then (let bakedChar = GetBakedChar font c in
            RemainingWordWidth font c ws (remainingWordWidth + bc_xadvance bakedChar))
      else remainingWordWidth)"

text \<open>Lines 203-225: the word wrap before the character \<open>c\<close>, which is followed by
  \<open>rest\<close>. The sum and the difference of the rectangle's fields and the new line's
  \<open>yadvance\<close> are 32-bit operations; the cursor arithmetic in \<open>float\<close> is taken as
  exact.\<close>

definition WordWrap_word ::
  "XrRect2Di \<Rightarrow> BakedFont \<Rightarrow> int \<Rightarrow> WordWrap \<Rightarrow> string \<Rightarrow> char \<Rightarrow> string \<Rightarrow> put_state \<Rightarrow> put_state" where
  "WordWrap_word rect font pixelHeight wordWrap fullText c rest st =
     (let remainingWordWidth = RemainingWordWidth font c (c # rest) 0 in
      if xadvance st + remainingWordWidth
           > real_of_int (int32 (offset_x rect + extent_width rect))
      then (if remainingWordWidth \<le> real_of_int (int32 (extent_width rect - offset_x rect))
            then (if wordWrap = Enabled
                  then st\<lparr>xadvance := real_of_int (offset_x rect),
                          yadvance := int32 (yadvance st + pixelHeight)\<rparr>
                  else st\<lparr>warnings := warnings st @ [fullText]\<rparr>)
            else st)
      else st)"

text \<open>Lines 231-241: the wrap of a single character.\<close>

definition WordWrap_char ::
  "XrRect2Di \<Rightarrow> int \<Rightarrow> WordWrap \<Rightarrow> string \<Rightarrow> int \<Rightarrow> put_state \<Rightarrow> put_state" where
  "WordWrap_char rect pixelHeight wordWrap fullText characterWidth st =
     (if xadvance st + real_of_int characterWidth
          > real_of_int (int32 (offset_x rect + extent_width rect))
      then (if wordWrap = Enabled
            then st\<lparr>xadvance := real_of_int (offset_x rect),
                    yadvance := int32 (yadvance st + pixelHeight)\<rparr>
            else st\<lparr>warnings := warnings st @ [fullText]\<rparr>)
      else st)"

text \<open>Lines 196-275: the loop over the text, which ends at the terminating NUL.\<close>

fun PutText_loop ::
  "RGBAImage \<Rightarrow> XrRect2Di \<Rightarrow> BakedFont \<Rightarrow> int \<Rightarrow> XrColor4f \<Rightarrow> WordWrap \<Rightarrow> string \<Rightarrow> string
   \<Rightarrow> put_state \<Rightarrow> error + put_state" where
  "PutText_loop img rect font pixelHeight color wordWrap fullText [] st = Inr st"
| "PutText_loop img rect font pixelHeight color wordWrap fullText (c # rest) st =
     (if c = CHR 0x00 then Inr st
      else if c = CHR 0x0A
      then PutText_loop img rect font pixelHeight color wordWrap fullText rest
             (st\<lparr>xadvance := real_of_int (offset_x rect),
                 yadvance := int32 (yadvance st + pixelHeight)\<rparr>)
      else (let st1 = WordWrap_word rect font pixelHeight wordWrap fullText c rest st;
                bakedChar = GetBakedChar font c;
                characterWidth = int (bc_x1 bakedChar) - int (bc_x0 bakedChar);
                characterHeight = int (bc_y1 bakedChar) - int (bc_y0 bakedChar);
                st2 = WordWrap_char rect pixelHeight wordWrap fullText characterWidth st1
            in case PutText_rows img rect font bakedChar color (xadvance st2) (yadvance st2)
                      characterWidth characterHeight 0 (memory st2) of
                 Inl e \<Rightarrow> Inl e
               | Inr m' \<Rightarrow>
                   PutText_loop img rect font pixelHeight color wordWrap fullText rest
                     (st2\<lparr>memory := m', xadvance := xadvance st2 + bc_xadvance bakedChar\<rparr>)))"

text \<open>Lines 189-191: the variables before the loop.\<close>

definition PutText_start :: "RGBAImage \<Rightarrow> XrRect2Di \<Rightarrow> int \<Rightarrow> put_state" where
  "PutText_start img rect pixelHeight =
     \<lparr>xadvance = real_of_int (offset_x rect),
      yadvance = int32 (offset_y rect + float_to_int (real_of_int pixelHeight * (8 / 10))),
      memory = (pixels img, []), warnings = []\<rparr>"

text \<open>Lines 183-276. The result is the image, the log of the stores of this call and
  the warnings printed, with the heap of fonts after the call.\<close>

definition PutText ::
  "(int \<Rightarrow> error + BakedFont) \<Rightarrow> BakedFont list \<Rightarrow> RGBAImage \<Rightarrow> XrRect2Di \<Rightarrow> string \<Rightarrow> int
   \<Rightarrow> XrColor4f \<Rightarrow> WordWrap \<Rightarrow> (error + RGBAImage \<times> nat list \<times> string list) \<times> BakedFont list" where
  "PutText bake heap img rect text pixelHeight color wordWrap =
     (case GetOrCreate bake heap pixelHeight of
        (Inl e, heap') \<Rightarrow> (Inl e, heap')
      | (Inr font, heap') \<Rightarrow>
          (case PutText_loop img rect (heap' ! font) pixelHeight color wordWrap text text
                  (PutText_start img rect pixelHeight) of
             Inl e \<Rightarrow> (Inl e, heap')
           | Inr st \<Rightarrow>
               (Inr (img\<lparr>pixels := fst (memory st)\<rparr>, snd (memory st), warnings st), heap')))"

section \<open>Notions for the proofs\<close>

text \<open>
  \<open>painted wd ht n c m m'\<close>: from memory \<open>m\<close> to \<open>m'\<close>, the pixel \<open>(i, j)\<close> of a
  \<open>wd\<close> by \<open>ht\<close> image was stored to \<open>n i j\<close> times, always with the colour \<open>c\<close>.
\<close>

definition painted ::
  "int \<Rightarrow> int \<Rightarrow> (int \<Rightarrow> int \<Rightarrow> nat) \<Rightarrow> RGBA8Color \<Rightarrow> pixel_memory \<Rightarrow> pixel_memory \<Rightarrow> bool" where
  "painted wd ht n c m m' \<longleftrightarrow>
     length (fst m') = length (fst m)
     \<and> (\<forall>i j. 0 \<le> i \<and> i < wd \<and> 0 \<le> j \<and> j < ht \<longrightarrow>
           fst m' ! nat (j * wd + i) = (if 0 < n i j then c else fst m ! nat (j * wd + i))
           \<and> count_list (snd m') (nat (j * wd + i)) = count_list (snd m) (nat (j * wd + i)) + n i j)"

text \<open>How often the rows from \<open>row\<close> on of \<open>DrawRectBorder\<close> store to the pixel
  \<open>(i, j)\<close>, as the proofs below establish.\<close>

definition border_stores :: "int \<Rightarrow> int \<Rightarrow> int \<Rightarrow> int \<Rightarrow> int \<Rightarrow> int \<Rightarrow> int \<Rightarrow> int \<Rightarrow> nat" where
  "border_stores x y w h t row i j =
     (if row + y \<le> j \<and> j < h + y \<and> x \<le> i \<and> i < x + w
      then (if j - y < t \<or> j - y \<ge> h - t then 1
            else (if i < x + min t w then 1 else 0) + (if x + max (w - t) 0 \<le> i then 1 else 0))
      else 0)"

text \<open>
  \<open>confined wd ht rect m m'\<close>: from memory \<open>m\<close> to \<open>m'\<close>, no pixel of a \<open>wd\<close> by
  \<open>ht\<close> image that lies outside \<open>rect\<close> was stored to or changed.
\<close>

definition confined :: "int \<Rightarrow> int \<Rightarrow> XrRect2Di \<Rightarrow> pixel_memory \<Rightarrow> pixel_memory \<Rightarrow> bool" where
  "confined wd ht rect m m' \<longleftrightarrow>
     length (fst m') = length (fst m)
     \<and> (\<forall>i j. 0 \<le> i \<and> i < wd \<and> 0 \<le> j \<and> j < ht
            \<and> \<not> (offset_x rect \<le> i \<and> i < offset_x rect + extent_width rect
                 \<and> offset_y rect \<le> j \<and> j < offset_y rect + extent_height rect) \<longrightarrow>
           fst m' ! nat (j * wd + i) = fst m ! nat (j * wd + i)
           \<and> count_list (snd m') (nat (j * wd + i)) = count_list (snd m) (nat (j * wd + i)))"

text \<open>
  What \<open>stbtt_BakeFontBitmap\<close> guarantees of a baked font: the box of each of the 95
  glyphs lies inside the atlas.
\<close>

definition font_wf :: "BakedFont \<Rightarrow> bool" where
  "font_wf font \<longleftrightarrow>
     0 \<le> m_bitmapWidth font
     \<and> (\<forall>n < 95. int (bc_x1 (m_bakedChars font n)) \<le> m_bitmapWidth font
            \<and> int (bc_y1 (m_bakedChars font n)) * m_bitmapWidth font
                \<le> int (length (glyphBitmap font)))"

text \<open>
  The blend equation in the spec's words, over the reals:
  \<open>dest = coverage * color + dest * (1 - coverage / 255)\<close>. It is compared below with
  \<open>blend_channel\<close>, which is what the code computes.
\<close>

definition blend_equation :: "int \<Rightarrow> real \<Rightarrow> int \<Rightarrow> real" where
  "blend_equation coverage c dest =
     real_of_int coverage * c + real_of_int dest * (1 - real_of_int coverage / 255)"

section \<open>Concrete inputs\<close>

definition shade :: "nat \<Rightarrow> RGBA8Color" where
  "shade k = \<lparr>Channels_R = of_nat k, Channels_G = 0, Channels_B = 0, Channels_A = 255\<rparr>"

definition image_3x2 :: RGBAImage where
  "image_3x2 =
     \<lparr>width = 3, height = 2,
      pixels = [shade 0, shade 1, shade 2, shade 3, shade 4, shade 5],
      isSrgb = False\<rparr>"

definition image_4x3 :: RGBAImage where
  "image_4x3 =
     \<lparr>width = 4, height = 3,
      pixels = [shade 0, shade 1, shade 2, shade 3, shade 4, shade 5, shade 6, shade 7,
                shade 8, shade 9, shade 10, shade 11],
      isSrgb = False\<rparr>"

definition orange :: XrColor4f where
  "orange = \<lparr>col_r = 1, col_g = 1 / 2, col_b = 0, col_a = 1\<rparr>"

definition orange32 :: RGBA8Color where
  "orange32 = \<lparr>Channels_R = 255, Channels_G = 127, Channels_B = 0, Channels_A = 255\<rparr>"

text \<open>A font whose every glyph is a 2 by 2 block of full coverage, with advance 2.\<close>

definition block_char :: stbtt_bakedchar where
  "block_char =
     \<lparr>bc_x0 = 0, bc_y0 = 0, bc_x1 = 2, bc_y1 = 2, bc_xoff = 0, bc_yoff = - 2, bc_xadvance = 2\<rparr>"

definition block_font :: BakedFont where
  "block_font =
     \<lparr>glyphBitmap = [255, 255, 255, 255], m_bakedChars = (\<lambda>n. block_char),
      m_bitmapWidth = 2, m_bitmapHeight = 2\<rparr>"

definition bake_block :: "int \<Rightarrow> error + BakedFont" where
  "bake_block pixelHeight = Inr block_font"

definition rect_1_0_2_3 :: XrRect2Di where
  "rect_1_0_2_3 = \<lparr>offset_x = 1, offset_y = 0, extent_width = 2, extent_height = 3\<rparr>"

text \<open>A font in which \<open>i\<close> (code 105, glyph 73) has advance 1 and every other
  glyph advance 3; no glyph has pixels.\<close>

definition narrow_i_font :: BakedFont where
  "narrow_i_font =
     \<lparr>glyphBitmap = [],
      m_bakedChars = (\<lambda>n. \<lparr>bc_x0 = 0, bc_y0 = 0, bc_x1 = 0, bc_y1 = 0, bc_xoff = 0, bc_yoff = 0,
                             bc_xadvance = (if n = 73 then 1 else 3)\<rparr>),
      m_bitmapWidth = 0, m_bitmapHeight = 0\<rparr>"

text \<open>A rectangle whose right edge \<open>-1 + INT_MIN\<close> wraps to \<open>INT_MAX\<close>.\<close>

definition rect_wrapping :: XrRect2Di where
  "rect_wrapping =
     \<lparr>offset_x = - 1, offset_y = 0, extent_width = - 2147483648, extent_height = 3\<rparr>"

definition rect_5_0_6_3 :: XrRect2Di where
  "rect_5_0_6_3 = \<lparr>offset_x = 5, offset_y = 0, extent_width = 6, extent_height = 3\<rparr>"

text \<open>The variables of \<open>PutText\<close> after "a " of the text "a bb" was placed from column 5
  with \<open>block_font\<close>: the cursor is at column 9.\<close>

definition at_column_9 :: put_state where
  "at_column_9 = \<lparr>xadvance = 9, yadvance = 1, memory = ([], []), warnings = []\<rparr>"

text \<open>A font like \<open>block_font\<close> with coverage 100 in every glyph pixel.\<close>

definition grey_font :: BakedFont where
  "grey_font =
     \<lparr>glyphBitmap = [100, 100, 100, 100], m_bakedChars = (\<lambda>n. block_char),
      m_bitmapWidth = 2, m_bitmapHeight = 2\<rparr>"

definition fresh_process :: process where
  "fresh_process =
     \<lparr>cache = \<lparr>m_cacheMutex = False, m_imageCache = Map.empty\<rparr>,
      next_object = 0, decodes = [], decodable = (\<lambda>p. p = ''a.png'')\<rparr>"

definition ready_process :: process where
  "ready_process = fresh_process\<lparr>cache := Init (cache fresh_process)\<rparr>"

text \<open>The process after a first \<open>Load\<close> of a.png has returned image 0.\<close>

definition cached_process :: process where
  "cached_process =
     ready_process\<lparr>cache := \<lparr>m_cacheMutex = True, m_imageCache = [''a.png'' \<mapsto> 0]\<rparr>,
                   next_object := 1, decodes := [''a.png'']\<rparr>"



section \<open>The image cache before and after Init\<close>

lemma Load_invalid:
  "\<not> IsValid (cache s) \<Longrightarrow> Load s p = (Inl logic_error, s)"
  by (simp add: Load_def Load_lookup_def)

lemma Load_valid_hit:
  "IsValid (cache s) \<Longrightarrow> m_imageCache (cache s) p = Some q \<Longrightarrow> Load s p = (Inr q, s)"
  by (simp add: Load_def Load_lookup_def)

lemma Load_valid_miss:
  "IsValid (cache s) \<Longrightarrow> m_imageCache (cache s) p = None \<Longrightarrow>
   fst (Load s p) = (if decodable s p then Inr (next_object s) else Inl runtime_error)"
  by (simp add: Load_def Load_lookup_def Load_decode_def Load_emplace_def)

lemma Load_completes: "fst (Load s p) \<noteq> Inl undefined_behaviour"
  by (simp add: Load_def Load_lookup_def Load_decode_def Load_emplace_def
      split: option.splits)

lemma IsValid_Init: "IsValid (Init c)"
  by (simp add: IsValid_def Init_def)

text \<open>
  C10. Before \<open>Init\<close>, \<open>Load\<close> raises the logic error and leaves the cache (and the
  rest of the process state) as it was; \<open>Init\<close> makes the cache valid; on a valid cache
  \<open>Load\<close> never raises the logic error.
\<close>

theorem Load_before_Init_logic_error:
  "(\<not> IsValid (cache s) \<longrightarrow> Load s p = (Inl logic_error, s))
   \<and> IsValid (Init (cache s))
   \<and> (IsValid (cache s) \<longrightarrow> fst (Load s p) \<noteq> Inl logic_error)"
proof (intro conjI impI)
  assume "\<not> IsValid (cache s)"
  then show "Load s p = (Inl logic_error, s)" by (rule Load_invalid)
next
  show "IsValid (Init (cache s))" by (rule IsValid_Init)
next
  assume v: "IsValid (cache s)"
  show "fst (Load s p) \<noteq> Inl logic_error"
  proof (cases "m_imageCache (cache s) p")
    case None
    with v show ?thesis by (simp add: Load_valid_miss)
  next
    case (Some q)
    with v show ?thesis by (simp add: Load_valid_hit)
  qed
qed

theorem Load_before_Init_logic_error_witness:
  "\<not> IsValid (cache fresh_process)
   \<and> Load fresh_process ''a.png'' = (Inl logic_error, fresh_process)
   \<and> IsValid (cache ready_process)
   \<and> fst (Load ready_process ''a.png'') \<noteq> Inl logic_error"
proof -
  have nv: "\<not> IsValid (cache fresh_process)"
    by (simp add: IsValid_def fresh_process_def)
  from Load_before_Init_logic_error[of fresh_process "''a.png''"] nv
  have a: "Load fresh_process ''a.png'' = (Inl logic_error, fresh_process)"
    by blast
  have v: "IsValid (cache ready_process)"
    by (simp add: ready_process_def IsValid_def Init_def)
  from Load_before_Init_logic_error[of ready_process "''a.png''"] v
  have b: "fst (Load ready_process ''a.png'') \<noteq> Inl logic_error"
    by blast
  show ?thesis using nv a v b by blast
qed

lemma Load_ready_process:
  "Load ready_process ''a.png''
     = (Inr 0, ready_process\<lparr>cache := \<lparr>m_cacheMutex = True, m_imageCache = [''a.png'' \<mapsto> 0]\<rparr>,
                              next_object := 1, decodes := [''a.png'']\<rparr>)"
  by (simp add: Load_def Load_lookup_def Load_decode_def Load_emplace_def ready_process_def
      fresh_process_def Init_def IsValid_def)

section \<open>Filling spans and rows\<close>


lemma int32_id: "- (2 ^ 31) \<le> v \<Longrightarrow> v < 2 ^ 31 \<Longrightarrow> int32 v = v"
  by (simp add: int32_def)

lemma store_Inr:
  "0 \<le> i \<Longrightarrow> i < int (length (fst m)) \<Longrightarrow>
   store m i c = Inr ((fst m)[nat i := c], nat i # snd m)"
  by (simp add: store_def)

lemma fill_cols_spec:
  "(col < stop \<longrightarrow> 0 \<le> start + col \<and> start + stop \<le> int (length (fst m))) \<Longrightarrow>
   \<exists>m'. fill_cols start col stop c m = Inr m'
     \<and> length (fst m') = length (fst m)
     \<and> (\<forall>k < length (fst m). fst m' ! k =
           (if start + col \<le> int k \<and> int k < start + stop then c else fst m ! k))
     \<and> (\<forall>k. count_list (snd m') k = count_list (snd m) k +
           (if start + col \<le> int k \<and> int k < start + stop then 1 else 0))"
proof (induction start col stop c m rule: fill_cols.induct)
  case (1 start col stop color32 m)
  show ?case
  proof (cases "col < stop")
    case False
    then show ?thesis by (auto simp: fill_cols.simps)
  next
    case True
    with "1.prems" have lo: "0 \<le> start + col" and hi: "start + stop \<le> int (length (fst m))"
      by simp_all
    let ?m1 = "((fst m)[nat (start + col) := color32], nat (start + col) # snd m)"
    have st: "store m (start + col) color32 = Inr ?m1"
      using lo hi True by (intro store_Inr) simp_all
    have pre: "col + 1 < stop \<longrightarrow> 0 \<le> start + (col + 1) \<and> start + stop \<le> int (length (fst ?m1))"
      using lo hi by simp
    from "1.IH"[OF True st pre] obtain m' where
      r: "fill_cols start (col + 1) stop color32 ?m1 = Inr m'"
      and len: "length (fst m') = length (fst ?m1)"
      and px: "\<forall>k < length (fst ?m1). fst m' ! k =
           (if start + (col + 1) \<le> int k \<and> int k < start + stop then color32 else fst ?m1 ! k)"
      and cnt: "\<forall>k. count_list (snd m') k = count_list (snd ?m1) k +
           (if start + (col + 1) \<le> int k \<and> int k < start + stop then 1 else 0)"
      by blast
    have eq: "fill_cols start col stop color32 m = Inr m'"
      using True st r by (subst fill_cols.simps) simp
    have px': "\<forall>k < length (fst m). fst m' ! k =
           (if start + col \<le> int k \<and> int k < start + stop then color32 else fst m ! k)"
    proof (intro allI impI)
      fix k assume k: "k < length (fst m)"
      show "fst m' ! k = (if start + col \<le> int k \<and> int k < start + stop then color32 else fst m ! k)"
      proof (cases "int k = start + col")
        case True
        then have "k = nat (start + col)" by simp
        with px k True \<open>col < stop\<close> show ?thesis by simp
      next
        case False
        then have "k \<noteq> nat (start + col)" using lo by auto
        with px k False show ?thesis by auto
      qed
    qed
    have cnt': "\<forall>k. count_list (snd m') k = count_list (snd m) k +
           (if start + col \<le> int k \<and> int k < start + stop then 1 else 0)"
    proof
      fix k
      show "count_list (snd m') k = count_list (snd m) k +
           (if start + col \<le> int k \<and> int k < start + stop then 1 else 0)"
      proof (cases "int k = start + col")
        case True
        then have "k = nat (start + col)" by simp
        with cnt True \<open>col < stop\<close> show ?thesis by simp
      next
        case False
        then have "k \<noteq> nat (start + col)" using lo by auto
        with cnt False show ?thesis by auto
      qed
    qed
    show ?thesis using eq len px' cnt' by simp
  qed
qed


lemma row_bound:
  fixes j wd ht i :: int
  assumes "0 \<le> wd" "j < ht" "i \<le> wd"
  shows "j * wd + i \<le> ht * wd"
proof -
  have "(j + 1) * wd \<le> ht * wd"
    using assms by (intro mult_right_mono) simp_all
  then show ?thesis using assms by (simp add: algebra_simps)
qed

lemma index_nonneg:
  fixes j wd i :: int
  assumes "0 \<le> wd" "0 \<le> j" "0 \<le> i"
  shows "0 \<le> j * wd + i"
  using assms by simp

lemma span_iff:
  fixes i j r wd x w :: int
  assumes "0 \<le> i" "i < wd" "0 \<le> x" "x + w \<le> wd"
  shows "(r * wd + x \<le> j * wd + i \<and> j * wd + i < r * wd + x + w)
         \<longleftrightarrow> (j = r \<and> x \<le> i \<and> i < x + w)"
proof (cases "j < r")
  case True
  have wd: "0 \<le> wd" using assms by simp
  have "(j + 1) * wd \<le> r * wd"
    using True wd by (intro mult_right_mono) simp_all
  then have "j * wd + i < r * wd + x"
    using assms by (simp add: algebra_simps)
  with True show ?thesis by simp
next
  case False
  show ?thesis
  proof (cases "r < j")
    case True
    have wd: "0 \<le> wd" using assms by simp
    have "(r + 1) * wd \<le> j * wd"
      using True wd by (intro mult_right_mono) simp_all
    then have "r * wd + x + w \<le> j * wd + i"
      using assms by (simp add: algebra_simps)
    with True show ?thesis by simp
  next
    case False
    with \<open>\<not> j < r\<close> have "j = r" by simp
    then show ?thesis by auto
  qed
qed


lemma painted_refl: "painted wd ht (\<lambda>i j. 0) c m m"
  by (simp add: painted_def)

lemma painted_trans:
  "painted wd ht n1 c m m1 \<Longrightarrow> painted wd ht n2 c m1 m2 \<Longrightarrow>
   painted wd ht (\<lambda>i j. n1 i j + n2 i j) c m m2"
  by (auto simp: painted_def)

lemma painted_cong:
  "painted wd ht n c m m' \<Longrightarrow>
   (\<And>i j. 0 \<le> i \<Longrightarrow> i < wd \<Longrightarrow> 0 \<le> j \<Longrightarrow> j < ht \<Longrightarrow> n i j = n' i j) \<Longrightarrow>
   painted wd ht n' c m m'"
  by (simp add: painted_def)

lemma painted_fill_cols:
  assumes wd: "0 \<le> wd" and len: "int (length (fst m)) = wd * ht"
    and r: "0 \<le> r" "r < ht" and sp: "0 \<le> x" "0 \<le> c0" "x + stop \<le> wd"
  shows "\<exists>m'. fill_cols (r * wd + x) c0 stop c m = Inr m'
           \<and> painted wd ht (\<lambda>i j. if j = r \<and> x + c0 \<le> i \<and> i < x + stop then 1 else 0) c m m'"
proof -
  have hi: "r * wd + x + stop \<le> int (length (fst m))"
    using row_bound[of wd r ht "x + stop"] wd r sp len by (simp add: algebra_simps)
  have lo: "0 \<le> r * wd + x + c0"
    using wd r sp by simp
  from fill_cols_spec[of c0 stop "r * wd + x" m c] lo hi
  obtain m' where eq: "fill_cols (r * wd + x) c0 stop c m = Inr m'"
    and l: "length (fst m') = length (fst m)"
    and px: "\<forall>k < length (fst m). fst m' ! k =
           (if r * wd + x + c0 \<le> int k \<and> int k < r * wd + x + stop then c else fst m ! k)"
    and cnt: "\<forall>k. count_list (snd m') k = count_list (snd m) k +
           (if r * wd + x + c0 \<le> int k \<and> int k < r * wd + x + stop then 1 else 0)"
    by auto
  have "painted wd ht (\<lambda>i j. if j = r \<and> x + c0 \<le> i \<and> i < x + stop then 1 else 0) c m m'"
    unfolding painted_def
  proof (intro conjI allI impI)
    show "length (fst m') = length (fst m)" by (rule l)
  next
    fix i j assume ij: "0 \<le> i \<and> i < wd \<and> 0 \<le> j \<and> j < ht"
    then have nn: "0 \<le> j * wd + i" using wd by simp
    have "j * wd + i < ht * wd"
    proof -
      have "j * wd + (i + 1) \<le> ht * wd"
        using row_bound[of wd j ht "i + 1"] wd ij by simp
      then show ?thesis by simp
    qed
    then have k: "nat (j * wd + i) < length (fst m)"
      using len nn by (simp add: nat_less_iff mult.commute)
    have iff: "(r * wd + x + c0 \<le> j * wd + i \<and> j * wd + i < r * wd + x + stop)
                 \<longleftrightarrow> (j = r \<and> x + c0 \<le> i \<and> i < x + stop)"
      using span_iff[of i wd "x + c0" "stop - c0" r j] ij sp by (simp add: algebra_simps)
    show "fst m' ! nat (j * wd + i) =
          (if 0 < (if j = r \<and> x + c0 \<le> i \<and> i < x + stop then 1 else (0::nat)) then c
           else fst m ! nat (j * wd + i))"
      using px k nn iff by simp
    show "count_list (snd m') (nat (j * wd + i)) =
          count_list (snd m) (nat (j * wd + i)) +
          (if j = r \<and> x + c0 \<le> i \<and> i < x + stop then 1 else 0)"
      using cnt nn iff by simp
  qed
  with eq show ?thesis by blast
qed

lemma painted_length: "painted wd ht n c m m' \<Longrightarrow> length (fst m') = length (fst m)"
  by (simp add: painted_def)

lemma DrawRect_rows_painted:
  assumes "0 \<le> wd" "int (length (fst m)) = wd * ht" "0 \<le> x" "0 \<le> y" "0 \<le> row"
    "x + w \<le> wd" "y + h \<le> ht"
  shows "\<exists>m'. DrawRect_rows wd x y w h row c m = Inr m'
           \<and> painted wd ht (\<lambda>i j. if row + y \<le> j \<and> j < h + y \<and> x \<le> i \<and> i < x + w
                                    then 1 else 0) c m m'"
  using assms
proof (induction wd x y w h row c m rule: DrawRect_rows.induct)
  case (1 wd x y w h row color32 m)
  show ?case
  proof (cases "row < h")
    case False
    have "painted wd ht (\<lambda>i j. if row + y \<le> j \<and> j < h + y \<and> x \<le> i \<and> i < x + w
                                    then 1 else 0) color32 m m"
      using False by (intro painted_cong[OF painted_refl]) auto
    with False show ?thesis by (simp add: DrawRect_rows.simps)
  next
    case True
    from painted_fill_cols[of wd m ht "row + y" x 0 w color32] "1.prems" True
    obtain m1 where f: "fill_cols ((row + y) * wd + x) 0 w color32 m = Inr m1"
      and p1: "painted wd ht (\<lambda>i j. if j = row + y \<and> x + 0 \<le> i \<and> i < x + w then 1 else 0)
                 color32 m m1"
      by auto
    have len1: "int (length (fst m1)) = wd * ht"
      using painted_length[OF p1] "1.prems" by simp
    from "1.IH"[OF True f \<open>0 \<le> wd\<close> len1] "1.prems"
    obtain m' where r: "DrawRect_rows wd x y w h (row + 1) color32 m1 = Inr m'"
      and p2: "painted wd ht (\<lambda>i j. if row + 1 + y \<le> j \<and> j < h + y \<and> x \<le> i \<and> i < x + w
                                    then 1 else 0) color32 m1 m'"
      by auto
    have eq: "DrawRect_rows wd x y w h row color32 m = Inr m'"
      using True f r by (subst DrawRect_rows.simps) simp
    have "painted wd ht (\<lambda>i j. if row + y \<le> j \<and> j < h + y \<and> x \<le> i \<and> i < x + w
                                    then 1 else 0) color32 m m'"
      using True by (intro painted_cong[OF painted_trans[OF p1 p2]]) auto
    with eq show ?thesis by blast
  qed
qed


lemma DrawRectBorder_rows_painted:
  assumes "0 \<le> wd" "int (length (fst m)) = wd * ht" "0 \<le> x" "0 \<le> y" "0 \<le> row"
    "x + w \<le> wd" "y + h \<le> ht"
    and "int32 (h - t) = h - t" "int32 (w - t) = w - t"
  shows "\<exists>m'. DrawRectBorder_rows wd x y w h t row c m = Inr m'
           \<and> painted wd ht (border_stores x y w h t row) c m m'"
  using assms
proof (induction wd x y w h t row c m rule: DrawRectBorder_rows.induct)
  case (1 wd x y w h thickness row color32 m)
  show ?case
  proof (cases "row < h")
    case False
    have "painted wd ht (border_stores x y w h thickness row) color32 m m"
      using False by (intro painted_cong[OF painted_refl]) (auto simp: border_stores_def)
    with False show ?thesis by (simp add: DrawRectBorder_rows.simps)
  next
    case True
    let ?start = "(row + y) * wd + x"
    note i32 = "1.prems"(8) "1.prems"(9)
    let ?row = "if row < thickness \<or> row \<ge> int32 (h - thickness)
                  then fill_cols ?start 0 w color32 m
                  else (let leftBorderEnd = min thickness w in
                        case fill_cols ?start 0 leftBorderEnd color32 m of
                          Inl e \<Rightarrow> Inl e
                        | Inr m1 \<Rightarrow>
                            (let rightBorderBegin = max (int32 (w - thickness)) 0 in
                             fill_cols ?start rightBorderBegin w color32 m1))"
    have rowp: "\<exists>m1. ?row = Inr m1 \<and>
        painted wd ht (\<lambda>i j. if j = row + y \<and> x \<le> i \<and> i < x + w
          then (if row < thickness \<or> row \<ge> h - thickness then 1
                else (if i < x + min thickness w then 1 else 0)
                   + (if x + max (w - thickness) 0 \<le> i then 1 else 0))
          else 0) color32 m m1"
    proof (cases "row < thickness \<or> row \<ge> h - thickness")
      case full: True
      from painted_fill_cols[of wd m ht "row + y" x 0 w color32] "1.prems" True
      obtain m1 where f: "fill_cols ?start 0 w color32 m = Inr m1"
        and p1: "painted wd ht (\<lambda>i j. if j = row + y \<and> x + 0 \<le> i \<and> i < x + w then 1 else 0)
                 color32 m m1"
        by auto
      have "painted wd ht (\<lambda>i j. if j = row + y \<and> x \<le> i \<and> i < x + w
          then (if row < thickness \<or> row \<ge> h - thickness then 1
                else (if i < x + min thickness w then 1 else 0)
                   + (if x + max (w - thickness) 0 \<le> i then 1 else 0))
          else 0) color32 m m1"
        using full by (intro painted_cong[OF p1]) auto
      with f full show ?thesis by (auto simp: i32)
    next
      case part: False
      have b1: "x + min thickness w \<le> wd" using "1.prems" by simp
      have ry: "0 \<le> row + y" "row + y < ht" using "1.prems" True by simp_all
      from painted_fill_cols[OF \<open>0 \<le> wd\<close> \<open>int (length (fst m)) = wd * ht\<close> ry \<open>0 \<le> x\<close> _ b1,
          of 0 color32]
      obtain m1 where f1: "fill_cols ?start 0 (min thickness w) color32 m = Inr m1"
        and p1: "painted wd ht
                   (\<lambda>i j. if j = row + y \<and> x + 0 \<le> i \<and> i < x + min thickness w then 1 else 0)
                   color32 m m1"
        by auto
      have len1: "int (length (fst m1)) = wd * ht"
        using painted_length[OF p1] "1.prems" by simp
      have b2: "0 \<le> max (w - thickness) 0" by simp
      from painted_fill_cols[OF \<open>0 \<le> wd\<close> len1 ry \<open>0 \<le> x\<close> b2 \<open>x + w \<le> wd\<close>, of color32]
      obtain m2 where f2: "fill_cols ?start (max (w - thickness) 0) w color32 m1 = Inr m2"
        and p2: "painted wd ht
                   (\<lambda>i j. if j = row + y \<and> x + max (w - thickness) 0 \<le> i \<and> i < x + w
                           then 1 else 0) color32 m1 m2"
        by auto
      have "painted wd ht (\<lambda>i j. if j = row + y \<and> x \<le> i \<and> i < x + w
          then (if row < thickness \<or> row \<ge> h - thickness then 1
                else (if i < x + min thickness w then 1 else 0)
                   + (if x + max (w - thickness) 0 \<le> i then 1 else 0))
          else 0) color32 m m2"
        using part True "1.prems" by (intro painted_cong[OF painted_trans[OF p1 p2]]) auto
      with f1 f2 part show ?thesis by (auto simp: Let_def i32)
    qed
    then obtain m1 where f: "?row = Inr m1"
      and p1: "painted wd ht (\<lambda>i j. if j = row + y \<and> x \<le> i \<and> i < x + w
          then (if row < thickness \<or> row \<ge> h - thickness then 1
                else (if i < x + min thickness w then 1 else 0)
                   + (if x + max (w - thickness) 0 \<le> i then 1 else 0))
          else 0) color32 m m1"
      by blast
    have len1: "int (length (fst m1)) = wd * ht"
      using painted_length[OF p1] "1.prems" by simp
    from "1.IH"[OF True refl f \<open>0 \<le> wd\<close> len1] "1.prems"
    obtain m' where r: "DrawRectBorder_rows wd x y w h thickness (row + 1) color32 m1 = Inr m'"
      and p2: "painted wd ht (border_stores x y w h thickness (row + 1)) color32 m1 m'"
      by auto
    have eq: "DrawRectBorder_rows wd x y w h thickness row color32 m = Inr m'"
      using True f r by (subst DrawRectBorder_rows.simps) (simp add: Let_def)
    have "painted wd ht (border_stores x y w h thickness row) color32 m m'"
      using True by (intro painted_cong[OF painted_trans[OF p1 p2]]) (auto simp: border_stores_def)
    with eq show ?thesis by blast
  qed
qed

section \<open>DrawRect and DrawRectBorder\<close>

lemma AsRGBA_orange:
  "AsRGBA (col_r orange) (col_g orange) (col_b orange) (col_a orange) = orange32"
  by (simp add: AsRGBA_def orange_def orange32_def float_to_uint8_def float_to_int_def)

lemma float_to_uint8_normalized:
  assumes "0 \<le> v" "v \<le> 1"
  shows "uint (float_to_uint8 (255 * v)) = \<lfloor>255 * v\<rfloor>"
proof -
  have lo: "0 \<le> \<lfloor>255 * v\<rfloor>" using assms by simp
  have "255 * v \<le> 255" using assms by simp
  then have "\<lfloor>255 * v\<rfloor> \<le> 255" by (simp add: floor_le_iff)
  then have hi: "\<lfloor>255 * v\<rfloor> < 2 ^ 8" by simp
  have "uint (word_of_int \<lfloor>255 * v\<rfloor> :: 8 word) = \<lfloor>255 * v\<rfloor>"
    using lo hi by (simp add: uint_word_of_int)
  then show ?thesis using assms by (simp add: float_to_uint8_def float_to_int_def)
qed

text \<open>
  C2. For a rectangle \<open>(x, y, w, h)\<close> inside a well-formed image, \<open>DrawRect\<close> returns
  normally, every pixel of the rectangle holds the colour whose channels are
  \<open>255 * channel\<close> truncated and kept to 8 bits, and every other pixel of the image is
  what it was.
\<close>

theorem DrawRect_fills_rectangle:
  assumes wf: "image_wf img"
    and inside: "0 \<le> x" "0 \<le> y" "0 \<le> w" "0 \<le> h" "x + w \<le> width img" "y + h \<le> height img"
  shows "\<exists>img' lg. DrawRect img x y w h color = Inr (img', lg)
     \<and> width img' = width img \<and> height img' = height img
     \<and> length (pixels img') = length (pixels img)
     \<and> (\<forall>i j. 0 \<le> i \<and> i < width img \<and> 0 \<le> j \<and> j < height img \<longrightarrow>
           pixel_at img' i j =
             (if x \<le> i \<and> i < x + w \<and> y \<le> j \<and> j < y + h
              then \<lparr>Channels_R = word_of_int (float_to_int (255 * col_r color)),
                    Channels_G = word_of_int (float_to_int (255 * col_g color)),
                    Channels_B = word_of_int (float_to_int (255 * col_b color)),
                    Channels_A = word_of_int (float_to_int (255 * col_a color))\<rparr>
              else pixel_at img i j))"
proof -
  let ?c = "AsRGBA (col_r color) (col_g color) (col_b color) (col_a color)"
  have len: "int (length (fst (pixels img, []::nat list))) = width img * height img"
    and wd: "0 \<le> width img"
    using wf by (simp_all add: image_wf_def)
  from DrawRect_rows_painted[OF wd len \<open>0 \<le> x\<close> \<open>0 \<le> y\<close> _ \<open>x + w \<le> width img\<close>
      \<open>y + h \<le> height img\<close>, of 0 ?c]
  obtain m' where r: "DrawRect_rows (width img) x y w h 0 ?c (pixels img, []) = Inr m'"
    and p: "painted (width img) (height img)
              (\<lambda>i j. if 0 + y \<le> j \<and> j < h + y \<and> x \<le> i \<and> i < x + w then 1 else 0)
              ?c (pixels img, []) m'"
    by auto
  have eq: "DrawRect img x y w h color = Inr (img\<lparr>pixels := fst m'\<rparr>, snd m')"
    using inside r by (simp add: DrawRect_def)
  have px: "\<forall>i j. 0 \<le> i \<and> i < width img \<and> 0 \<le> j \<and> j < height img \<longrightarrow>
           pixel_at (img\<lparr>pixels := fst m'\<rparr>) i j =
             (if x \<le> i \<and> i < x + w \<and> y \<le> j \<and> j < y + h then ?c else pixel_at img i j)"
    using p by (auto simp: painted_def pixel_at_def pixel_index_def)
  have c: "?c = \<lparr>Channels_R = word_of_int (float_to_int (255 * col_r color)),
                    Channels_G = word_of_int (float_to_int (255 * col_g color)),
                    Channels_B = word_of_int (float_to_int (255 * col_b color)),
                    Channels_A = word_of_int (float_to_int (255 * col_a color))\<rparr>"
    by (simp add: AsRGBA_def float_to_uint8_def)
  have l: "length (pixels (img\<lparr>pixels := fst m'\<rparr>)) = length (pixels img)"
    using painted_length[OF p] by simp
  show ?thesis
    using eq px l unfolding c by (intro exI[of _ "img\<lparr>pixels := fst m'\<rparr>"] exI[of _ "snd m'"]) simp
qed

lemma image_3x2_wf: "image_wf image_3x2"
  by (simp add: image_wf_def image_3x2_def)

theorem DrawRect_fills_rectangle_witness:
  "image_wf image_3x2 \<and> (0::int) \<le> 1 \<and> (1::int) + 2 \<le> width image_3x2
   \<and> (0::int) + 1 \<le> height image_3x2
   \<and> (\<exists>img' lg. DrawRect image_3x2 1 0 2 1 orange = Inr (img', lg)
        \<and> pixel_at img' 1 0 = orange32 \<and> pixel_at img' 2 0 = orange32
        \<and> pixel_at img' 0 0 = shade 0 \<and> pixel_at img' 1 1 = shade 4)"
proof -
  have h: "(0::int) \<le> 1" "(0::int) \<le> 0" "(0::int) \<le> 2" "(1::int) + 2 \<le> width image_3x2"
    "(0::int) + 1 \<le> height image_3x2"
    by (simp_all add: image_3x2_def)
  from DrawRect_fills_rectangle[OF image_3x2_wf h(1) h(2) h(3) h(1) h(4) h(5), of orange]
  obtain img' lg where eq: "DrawRect image_3x2 1 0 2 1 orange = Inr (img', lg)"
    and px: "\<forall>i j. 0 \<le> i \<and> i < width image_3x2 \<and> 0 \<le> j \<and> j < height image_3x2 \<longrightarrow>
           pixel_at img' i j =
             (if 1 \<le> i \<and> i < 1 + 2 \<and> 0 \<le> j \<and> j < 0 + 1
              then \<lparr>Channels_R = word_of_int (float_to_int (255 * col_r orange)),
                    Channels_G = word_of_int (float_to_int (255 * col_g orange)),
                    Channels_B = word_of_int (float_to_int (255 * col_b orange)),
                    Channels_A = word_of_int (float_to_int (255 * col_a orange))\<rparr>
              else pixel_at image_3x2 i j)"
    by blast
  have a: "pixel_at img' 1 0 = orange32"
    using px[rule_format, of 1 0]
    by (simp add: image_3x2_def orange_def orange32_def float_to_int_def)
  have b: "pixel_at img' 2 0 = orange32"
    using px[rule_format, of 2 0]
    by (simp add: image_3x2_def orange_def orange32_def float_to_int_def)
  have c: "pixel_at img' 0 0 = shade 0"
    using px[rule_format, of 0 0]
    by (simp add: image_3x2_def pixel_at_def pixel_index_def)
  have d: "pixel_at img' 1 1 = shade 4"
    using px[rule_format, of 1 1]
    by (simp add: image_3x2_def pixel_at_def pixel_index_def)
  show ?thesis using image_3x2_wf h eq a b c d by blast
qed


text \<open>
  C7. For a rectangle inside a well-formed image and a thickness \<open>t \<ge> 0\<close> (\<open>w\<close>,
  \<open>h\<close> and \<open>t\<close> being \<open>int\<close>s), \<open>DrawRectBorder\<close> returns normally (no store
  leaves the buffer) and never stores to a pixel outside the rectangle. When
  \<open>t \<ge> max w h / 2\<close>, that is \<open>max w h \<le> 2 * t\<close>, every pixel of the rectangle is
  stored to exactly once and holds the border colour, whose channels are \<open>255 * channel\<close>
  truncated and kept to 8 bits. For a smaller \<open>t\<close> the pixels that hold the colour are
  those of the top \<open>t\<close> rows, of the bottom \<open>t\<close> rows and of the left and right
  segments of width \<open>min t w\<close>; the others are what they were. (With the quotient of C,
  where 3 / 2 is 1, a 3 by 3 rectangle with \<open>t = 1\<close> keeps its centre pixel, as the
  instance after the theorem shows.)
\<close>

theorem DrawRectBorder_ring:
  assumes wf: "image_wf img"
    and inside: "0 \<le> x" "0 \<le> y" "0 \<le> w" "0 \<le> h" "x + w \<le> width img" "y + h \<le> height img"
    and ints: "0 \<le> t" "t < 2 ^ 31" "w < 2 ^ 31" "h < 2 ^ 31"
  shows "\<exists>img' lg. DrawRectBorder img x y w h t color = Inr (img', lg)
     \<and> width img' = width img \<and> height img' = height img
     \<and> length (pixels img') = length (pixels img)
     \<and> (\<forall>i j. 0 \<le> i \<and> i < width img \<and> 0 \<le> j \<and> j < height img \<longrightarrow>
           (if x \<le> i \<and> i < x + w \<and> y \<le> j \<and> j < y + h
            then (if max w h \<le> 2 * t
                  then pixel_at img' i j = \<lparr>Channels_R = word_of_int (float_to_int (255 * col_r color)),
                    Channels_G = word_of_int (float_to_int (255 * col_g color)),
                    Channels_B = word_of_int (float_to_int (255 * col_b color)),
                    Channels_A = word_of_int (float_to_int (255 * col_a color))\<rparr>
                       \<and> stores_to img lg i j = 1
                  else pixel_at img' i j =
                         (if j - y < t \<or> h - t \<le> j - y \<or> i - x < min t w
                             \<or> w - min t w \<le> i - x
                          then \<lparr>Channels_R = word_of_int (float_to_int (255 * col_r color)),
                    Channels_G = word_of_int (float_to_int (255 * col_g color)),
                    Channels_B = word_of_int (float_to_int (255 * col_b color)),
                    Channels_A = word_of_int (float_to_int (255 * col_a color))\<rparr>
                          else pixel_at img i j))
            else pixel_at img' i j = pixel_at img i j \<and> stores_to img lg i j = 0))"
proof -
  let ?c = "AsRGBA (col_r color) (col_g color) (col_b color) (col_a color)"
  have c: "\<lparr>Channels_R = word_of_int (float_to_int (255 * col_r color)),
                    Channels_G = word_of_int (float_to_int (255 * col_g color)),
                    Channels_B = word_of_int (float_to_int (255 * col_b color)),
                    Channels_A = word_of_int (float_to_int (255 * col_a color))\<rparr> = ?c"
    by (simp add: AsRGBA_def float_to_uint8_def)
  have len: "int (length (fst (pixels img, []::nat list))) = width img * height img"
    and wd: "0 \<le> width img"
    using wf by (simp_all add: image_wf_def)
  have i32: "int32 (h - t) = h - t" "int32 (w - t) = w - t"
    using inside ints by (simp_all add: int32_id)
  from DrawRectBorder_rows_painted[OF wd len \<open>0 \<le> x\<close> \<open>0 \<le> y\<close> _ \<open>x + w \<le> width img\<close>
      \<open>y + h \<le> height img\<close> i32, of 0 ?c]
  obtain m' where r: "DrawRectBorder_rows (width img) x y w h t 0 ?c (pixels img, []) = Inr m'"
    and p: "painted (width img) (height img) (border_stores x y w h t 0) ?c (pixels img, []) m'"
    by auto
  have eq: "DrawRectBorder img x y w h t color = Inr (img\<lparr>pixels := fst m'\<rparr>, snd m')"
    using inside r by (simp add: DrawRectBorder_def)
  have l: "length (pixels (img\<lparr>pixels := fst m'\<rparr>)) = length (pixels img)"
    using painted_length[OF p] by simp
  have px: "\<forall>i j. 0 \<le> i \<and> i < width img \<and> 0 \<le> j \<and> j < height img \<longrightarrow>
           (if x \<le> i \<and> i < x + w \<and> y \<le> j \<and> j < y + h
            then (if max w h \<le> 2 * t
                  then pixel_at (img\<lparr>pixels := fst m'\<rparr>) i j = ?c
                       \<and> stores_to img (snd m') i j = 1
                  else pixel_at (img\<lparr>pixels := fst m'\<rparr>) i j =
                         (if j - y < t \<or> h - t \<le> j - y \<or> i - x < min t w
                             \<or> w - min t w \<le> i - x
                          then ?c
                          else pixel_at img i j))
            else pixel_at (img\<lparr>pixels := fst m'\<rparr>) i j = pixel_at img i j \<and> stores_to img (snd m') i j = 0)"
  proof (intro allI impI)
    fix i j assume ij: "0 \<le> i \<and> i < width img \<and> 0 \<le> j \<and> j < height img"
    from p ij have v: "pixel_at (img\<lparr>pixels := fst m'\<rparr>) i j =
        (if 0 < border_stores x y w h t 0 i j then ?c else pixel_at img i j)"
      and n: "stores_to img (snd m') i j = border_stores x y w h t 0 i j"
      by (simp_all add: painted_def pixel_at_def pixel_index_def stores_to_def)
    show "(if x \<le> i \<and> i < x + w \<and> y \<le> j \<and> j < y + h
            then (if max w h \<le> 2 * t
                  then pixel_at (img\<lparr>pixels := fst m'\<rparr>) i j = ?c
                       \<and> stores_to img (snd m') i j = 1
                  else pixel_at (img\<lparr>pixels := fst m'\<rparr>) i j =
                         (if j - y < t \<or> h - t \<le> j - y \<or> i - x < min t w
                             \<or> w - min t w \<le> i - x
                          then ?c
                          else pixel_at img i j))
            else pixel_at (img\<lparr>pixels := fst m'\<rparr>) i j = pixel_at img i j \<and> stores_to img (snd m') i j = 0)"
    proof (cases "x \<le> i \<and> i < x + w \<and> y \<le> j \<and> j < y + h")
      case False
      then have "border_stores x y w h t 0 i j = 0"
        by (auto simp: border_stores_def)
      with v n have "pixel_at (img\<lparr>pixels := fst m'\<rparr>) i j = pixel_at img i j
                 \<and> stores_to img (snd m') i j = 0"
        by simp
      then show ?thesis by (subst if_not_P[OF False])
    next
      case inR: True
      show ?thesis
      proof (cases "max w h \<le> 2 * t")
        case True
        then have "j - y < t \<or> j - y \<ge> h - t" by linarith
        with inR have "border_stores x y w h t 0 i j = 1"
          by (auto simp: border_stores_def)
        with v n have "pixel_at (img\<lparr>pixels := fst m'\<rparr>) i j = ?c
                       \<and> stores_to img (snd m') i j = 1"
          by simp
        then show ?thesis by (subst if_P[OF inR], subst if_P[OF True])
      next
        case False
        have "(0 < border_stores x y w h t 0 i j) \<longleftrightarrow>
              (j - y < t \<or> h - t \<le> j - y \<or> i - x < min t w \<or> w - min t w \<le> i - x)"
          using inR by (auto simp: border_stores_def)
        with v have "pixel_at (img\<lparr>pixels := fst m'\<rparr>) i j =
                         (if j - y < t \<or> h - t \<le> j - y \<or> i - x < min t w
                             \<or> w - min t w \<le> i - x
                          then ?c else pixel_at img i j)"
          by simp
        then show ?thesis by (subst if_P[OF inR], subst if_not_P[OF False])
      qed
    qed
  qed
  show ?thesis
    unfolding c
    using eq px l by (intro exI[of _ "img\<lparr>pixels := fst m'\<rparr>"] exI[of _ "snd m'"]) simp
qed

lemma image_4x3_wf: "image_wf image_4x3"
  by (simp add: image_wf_def image_4x3_def)

lemma orange_channels:
  "\<lparr>Channels_R = word_of_int (float_to_int (255 * col_r orange)),
                    Channels_G = word_of_int (float_to_int (255 * col_g orange)),
                    Channels_B = word_of_int (float_to_int (255 * col_b orange)),
                    Channels_A = word_of_int (float_to_int (255 * col_a orange))\<rparr> = orange32"
  by (simp add: orange_def orange32_def float_to_int_def)

theorem DrawRectBorder_ring_witness:
  "image_wf image_4x3 \<and> (3::int) \<le> width image_4x3 \<and> (3::int) \<le> height image_4x3
   \<and> (\<exists>img' lg. DrawRectBorder image_4x3 0 0 3 3 2 orange = Inr (img', lg)
        \<and> pixel_at img' 1 1 = orange32 \<and> stores_to image_4x3 lg 1 1 = 1
        \<and> pixel_at img' 3 1 = shade 7 \<and> stores_to image_4x3 lg 3 1 = 0)
   \<and> (\<exists>img' lg. DrawRectBorder image_4x3 0 0 3 3 1 orange = Inr (img', lg)
        \<and> pixel_at img' 0 1 = orange32 \<and> pixel_at img' 1 1 = shade 5
        \<and> pixel_at img' 2 1 = orange32 \<and> pixel_at img' 1 2 = orange32)"
proof -
  have h: "(0::int) \<le> 0" "(0::int) \<le> 3" "(0::int) + 3 \<le> width image_4x3"
    "(0::int) + 3 \<le> height image_4x3" "(0::int) \<le> 2" "(2::int) < 2 ^ 31" "(3::int) < 2 ^ 31"
    "(0::int) \<le> 1" "(1::int) < 2 ^ 31"
    by (simp_all add: image_4x3_def)
  from DrawRectBorder_ring[OF image_4x3_wf h(1) h(1) h(2) h(2) h(3) h(4) h(5) h(6) h(7) h(7),
      of orange]
  obtain img' lg where eq: "DrawRectBorder image_4x3 0 0 3 3 2 orange = Inr (img', lg)"
    and px: "\<And>i j. 0 \<le> i \<and> i < width image_4x3 \<and> 0 \<le> j \<and> j < height image_4x3 \<Longrightarrow>
           (if 0 \<le> i \<and> i < 0 + 3 \<and> 0 \<le> j \<and> j < 0 + 3
            then (if max 3 3 \<le> 2 * (2::int)
                  then pixel_at img' i j = \<lparr>Channels_R = word_of_int (float_to_int (255 * col_r orange)),
                    Channels_G = word_of_int (float_to_int (255 * col_g orange)),
                    Channels_B = word_of_int (float_to_int (255 * col_b orange)),
                    Channels_A = word_of_int (float_to_int (255 * col_a orange))\<rparr>
                       \<and> stores_to image_4x3 lg i j = 1
                  else pixel_at img' i j =
                         (if j - 0 < (2::int) \<or> 3 - (2::int) \<le> j - 0 \<or> i - 0 < min (2::int) 3
                             \<or> 3 - min (2::int) 3 \<le> i - 0
                          then \<lparr>Channels_R = word_of_int (float_to_int (255 * col_r orange)),
                    Channels_G = word_of_int (float_to_int (255 * col_g orange)),
                    Channels_B = word_of_int (float_to_int (255 * col_b orange)),
                    Channels_A = word_of_int (float_to_int (255 * col_a orange))\<rparr>
                          else pixel_at image_4x3 i j))
            else pixel_at img' i j = pixel_at image_4x3 i j \<and> stores_to image_4x3 lg i j = 0)"
    by blast
  have a: "pixel_at img' 1 1 = orange32 \<and> stores_to image_4x3 lg 1 1 = 1"
    using px[of 1 1] by (simp add: image_4x3_def orange_channels)
  have b: "pixel_at img' 3 1 = shade 7 \<and> stores_to image_4x3 lg 3 1 = 0"
    using px[of 3 1] by (simp add: image_4x3_def pixel_at_def pixel_index_def)
  from DrawRectBorder_ring[OF image_4x3_wf h(1) h(1) h(2) h(2) h(3) h(4) h(8) h(9) h(7) h(7),
      of orange]
  obtain img2 lg2 where eq2: "DrawRectBorder image_4x3 0 0 3 3 1 orange = Inr (img2, lg2)"
    and px2: "\<And>i j. 0 \<le> i \<and> i < width image_4x3 \<and> 0 \<le> j \<and> j < height image_4x3 \<Longrightarrow>
           (if 0 \<le> i \<and> i < 0 + 3 \<and> 0 \<le> j \<and> j < 0 + 3
            then (if max 3 3 \<le> 2 * (1::int)
                  then pixel_at img2 i j = \<lparr>Channels_R = word_of_int (float_to_int (255 * col_r orange)),
                    Channels_G = word_of_int (float_to_int (255 * col_g orange)),
                    Channels_B = word_of_int (float_to_int (255 * col_b orange)),
                    Channels_A = word_of_int (float_to_int (255 * col_a orange))\<rparr>
                       \<and> stores_to image_4x3 lg2 i j = 1
                  else pixel_at img2 i j =
                         (if j - 0 < (1::int) \<or> 3 - (1::int) \<le> j - 0 \<or> i - 0 < min (1::int) 3
                             \<or> 3 - min (1::int) 3 \<le> i - 0
                          then \<lparr>Channels_R = word_of_int (float_to_int (255 * col_r orange)),
                    Channels_G = word_of_int (float_to_int (255 * col_g orange)),
                    Channels_B = word_of_int (float_to_int (255 * col_b orange)),
                    Channels_A = word_of_int (float_to_int (255 * col_a orange))\<rparr>
                          else pixel_at image_4x3 i j))
            else pixel_at img2 i j = pixel_at image_4x3 i j \<and> stores_to image_4x3 lg2 i j = 0)"
    by blast
  have c: "pixel_at img2 0 1 = orange32"
    using px2[of 0 1] by (simp add: image_4x3_def orange_channels)
  have d: "pixel_at img2 1 1 = shade 5"
    using px2[of 1 1] by (simp add: image_4x3_def pixel_at_def pixel_index_def)
  have e: "pixel_at img2 2 1 = orange32"
    using px2[of 2 1] by (simp add: image_4x3_def orange_channels)
  have f: "pixel_at img2 1 2 = orange32"
    using px2[of 1 2] by (simp add: image_4x3_def orange_channels)
  have w: "(3::int) \<le> width image_4x3" "(3::int) \<le> height image_4x3"
    by (simp_all add: image_4x3_def)
  show ?thesis using image_4x3_wf w eq a b eq2 c d e f by blast
qed

text \<open>
  Outside the hypotheses of the theorem: with the thickness \<open>INT_MIN\<close> the difference
  \<open>h - thickness\<close> wraps to a negative number, so every row is a full row.
\<close>

lemma DrawRectBorder_thickness_INT_MIN:
  "DrawRectBorder image_3x2 0 0 3 2 (- 2147483648) orange
     = Inr (image_3x2\<lparr>pixels := [orange32, orange32, orange32, orange32, orange32, orange32]\<rparr>,
            [5, 4, 3, 2, 1, 0])"
  by (simp add: DrawRectBorder_def DrawRectBorder_rows.simps fill_cols.simps store_def
      AsRGBA_orange image_3x2_def int32_def Let_def)

section \<open>DrawRect with a negative offset\<close>

text \<open>
  C3. \<open>DrawRect\<close> only tests \<open>x + w > width\<close> and \<open>y + h > height\<close>. On a 3 by 2
  image the rectangle \<open>(-1, 1, 1, 1)\<close>, which starts left of the image, raises nothing
  and overwrites \<open>pixels[2]\<close>, the last pixel of the row above; with \<open>y = 0\<close> the store
  goes before the buffer. \<open>DrawRectBorder\<close>, which tests \<open>x < 0\<close>, raises
  \<open>out_of_range\<close> on the same rectangle.
\<close>

theorem DrawRect_negative_offset:
  "DrawRect image_3x2 (- 1) 1 1 1 orange
     = Inr (image_3x2\<lparr>pixels := [shade 0, shade 1, orange32, shade 3, shade 4, shade 5]\<rparr>, [2])
   \<and> DrawRect image_3x2 (- 1) 0 1 1 orange = Inl undefined_behaviour
   \<and> DrawRectBorder image_3x2 (- 1) 1 1 1 1 orange = Inl out_of_range"
  by (simp add: DrawRect_def DrawRectBorder_def DrawRect_rows.simps fill_cols.simps store_def
      AsRGBA_orange image_3x2_def)

lemma DrawRectBorder_out_of_range:
  "x < 0 \<or> y < 0 \<or> w < 0 \<or> h < 0 \<or> x + w > width img \<or> y + h > height img \<Longrightarrow>
   DrawRectBorder img x y w h t color = Inl out_of_range"
  by (simp add: DrawRectBorder_def)

lemma DrawRect_out_of_range:
  "x + w > width img \<or> y + h > height img \<Longrightarrow> DrawRect img x y w h color = Inl out_of_range"
  by (simp add: DrawRect_def)

section \<open>PutText stays inside the rectangle\<close>

lemma confined_refl: "confined wd ht rect m m"
  by (simp add: confined_def)

lemma confined_trans:
  "confined wd ht rect m m1 \<Longrightarrow> confined wd ht rect m1 m2 \<Longrightarrow> confined wd ht rect m m2"
  by (auto simp: confined_def)

lemma confined_length: "confined wd ht rect m m' \<Longrightarrow> length (fst m') = length (fst m)"
  by (simp add: confined_def)

lemma index_in_buffer:
  fixes i j wd ht :: int
  assumes "0 \<le> wd" "0 \<le> i" "i < wd" "0 \<le> j" "j < ht"
  shows "0 \<le> j * wd + i \<and> j * wd + i < wd * ht"
proof -
  have "j * wd + (i + 1) \<le> ht * wd"
    using row_bound[of wd j ht "i + 1"] assms by simp
  then show ?thesis using assms by (simp add: mult.commute)
qed

lemma store_confined:
  assumes wd: "0 \<le> wd" and len: "int (length (fst m)) = wd * ht"
    and dx: "0 \<le> destX" "destX < wd"
      "offset_x rect \<le> destX" "destX < offset_x rect + extent_width rect"
    and dy: "0 \<le> destY" "destY < ht"
      "offset_y rect \<le> destY" "destY < offset_y rect + extent_height rect"
  shows "\<exists>pixel. load m (destY * wd + destX) = Inr pixel"
    and "\<exists>m'. store m (destY * wd + destX) c = Inr m' \<and> confined wd ht rect m m'"
proof -
  have rng: "0 \<le> destY * wd + destX \<and> destY * wd + destX < wd * ht"
    using index_in_buffer[OF wd dx(1) dx(2) dy(1) dy(2)] .
  then show "\<exists>pixel. load m (destY * wd + destX) = Inr pixel"
    using len by (simp add: load_def)
  let ?m' = "((fst m)[nat (destY * wd + destX) := c], nat (destY * wd + destX) # snd m)"
  have st: "store m (destY * wd + destX) c = Inr ?m'"
    using rng len by (simp add: store_def)
  have "confined wd ht rect m ?m'"
    unfolding confined_def
  proof (intro conjI allI impI)
    show "length (fst ?m') = length (fst m)" by simp
  next
    fix i j
    assume a: "0 \<le> i \<and> i < wd \<and> 0 \<le> j \<and> j < ht
            \<and> \<not> (offset_x rect \<le> i \<and> i < offset_x rect + extent_width rect
                 \<and> offset_y rect \<le> j \<and> j < offset_y rect + extent_height rect)"
    then have ne: "\<not> (j = destY \<and> destX \<le> i \<and> i < destX + 1)"
      using dx dy by auto
    have "(destY * wd + destX \<le> j * wd + i \<and> j * wd + i < destY * wd + destX + 1)
            \<longleftrightarrow> (j = destY \<and> destX \<le> i \<and> i < destX + 1)"
      using span_iff[of i wd destX 1 destY j] a dx by simp
    with ne have "j * wd + i \<noteq> destY * wd + destX" by auto
    moreover have "0 \<le> j * wd + i" using a wd by simp
    ultimately have d: "nat (j * wd + i) \<noteq> nat (destY * wd + destX)"
      using rng by auto
    show "fst ?m' ! nat (j * wd + i) = fst m ! nat (j * wd + i)"
      using d by simp
    show "count_list (snd ?m') (nat (j * wd + i)) = count_list (snd m) (nat (j * wd + i))"
      using d by simp
  qed
  with st show "\<exists>m'. store m (destY * wd + destX) c = Inr m' \<and> confined wd ht rect m m'"
    by blast
qed

lemma PutText_cols_confined:
  assumes "0 \<le> width img" "int (length (fst m)) = width img * ht"
    and "0 \<le> destY" "destY < ht"
      "offset_y rect \<le> destY" "destY < offset_y rect + extent_height rect"
    and "\<forall>k. 0 \<le> k \<and> k < characterWidth \<longrightarrow>
           (\<exists>v. glyph_load font (srcGlyphRow + (k + int (bc_x0 bakedChar))) = Inr v)"
    and "0 \<le> cx"
    and "int32 (offset_x rect + extent_width rect) = offset_x rect + extent_width rect"
  shows "\<exists>m'. PutText_cols img rect font bakedChar color xadv srcGlyphRow (destY * width img)
                 characterWidth cx m = Inr m'
           \<and> confined (width img) ht rect m m'"
  using assms
proof (induction img rect font bakedChar color xadv srcGlyphRow "destY * width img"
    characterWidth cx m rule: PutText_cols.induct)
  case (1 img rect font bakedChar color xadv srcGlyphRow characterWidth cx m)
  let ?destX = "int32 (int32 (lround (bc_xoff bakedChar + xadv)) + cx)"
  let ?skip = "?destX < 0 \<or> ?destX \<ge> width img \<or> ?destX < offset_x rect
               \<or> ?destX \<ge> int32 (offset_x rect + extent_width rect)"
  show ?case
  proof (cases "cx < characterWidth")
    case False
    then show ?thesis
      by (subst PutText_cols.simps) (simp add: confined_refl)
  next
    case True
    show ?thesis
    proof (cases ?skip)
      case skip: True
      from "1.hyps"(1)[OF True refl skip] "1.prems"
      obtain m' where r: "PutText_cols img rect font bakedChar color xadv srcGlyphRow
                 (destY * width img) characterWidth (cx + 1) m = Inr m'"
        and c: "confined (width img) ht rect m m'"
        by auto
      have "PutText_cols img rect font bakedChar color xadv srcGlyphRow (destY * width img)
                 characterWidth cx m = Inr m'"
        using True skip r by (subst PutText_cols.simps) (simp add: Let_def)
      with c show ?thesis by blast
    next
      case noskip: False
      then have dx: "0 \<le> ?destX" "?destX < width img" "offset_x rect \<le> ?destX"
        "?destX < offset_x rect + extent_width rect"
        unfolding "1.prems"(9) by simp_all
      from "1.prems"(7) True "1.prems"(8)
      obtain v where g: "glyph_load font (srcGlyphRow + (cx + int (bc_x0 bakedChar))) = Inr v"
        by blast
      from store_confined(1)[OF "1.prems"(1) "1.prems"(2) dx "1.prems"(3-6)]
      obtain pixel where ld: "load m (destY * width img + ?destX) = Inr pixel"
        by blast
      from store_confined(2)[OF "1.prems"(1) "1.prems"(2) dx "1.prems"(3-6),
          of "blend_pixel v color pixel"]
      obtain m1 where st: "store m (destY * width img + ?destX) (blend_pixel v color pixel) = Inr m1"
        and c1: "confined (width img) ht rect m m1"
        by blast
      have len1: "int (length (fst m1)) = width img * ht"
        using confined_length[OF c1] "1.prems"(2) by simp
      have nn: "0 \<le> cx + 1" using "1.prems"(8) by simp
      from "1.hyps"(2)[OF True refl noskip g ld st "1.prems"(1) len1 "1.prems"(3-7) nn
          "1.prems"(9)]
      obtain m' where r: "PutText_cols img rect font bakedChar color xadv srcGlyphRow
                 (destY * width img) characterWidth (cx + 1) m1 = Inr m'"
        and c2: "confined (width img) ht rect m1 m'"
        by blast
      have "PutText_cols img rect font bakedChar color xadv srcGlyphRow (destY * width img)
                 characterWidth cx m = Inr m'"
        using True noskip g ld st r by (subst PutText_cols.simps) (simp add: Let_def)
      with confined_trans[OF c1 c2] show ?thesis by blast
    qed
  qed
qed


lemma PutText_rows_confined:
  assumes "0 \<le> width img" "int (length (fst m)) = width img * height img"
    and "\<forall>r k. 0 \<le> r \<and> r < characterHeight \<and> 0 \<le> k \<and> k < characterWidth \<longrightarrow>
           (\<exists>v. glyph_load font (GetBakedCharRow font bakedChar r + (k + int (bc_x0 bakedChar)))
                  = Inr v)"
    and "0 \<le> cy"
    and "int32 (offset_x rect + extent_width rect) = offset_x rect + extent_width rect"
    and "int32 (offset_y rect + extent_height rect) = offset_y rect + extent_height rect"
  shows "\<exists>m'. PutText_rows img rect font bakedChar color xadv yadv characterWidth
                 characterHeight cy m = Inr m'
           \<and> confined (width img) (height img) rect m m'"
  using assms
proof (induction img rect font bakedChar color xadv yadv characterWidth characterHeight cy m
    rule: PutText_rows.induct)
  case (1 img rect font bakedChar color xadv yadv characterWidth characterHeight cy m)
  let ?destY = "int32 (int32 (yadv + cy) + float_to_int (bc_yoff bakedChar))"
  let ?skip = "?destY < 0 \<or> ?destY \<ge> height img \<or> ?destY < offset_y rect
               \<or> ?destY \<ge> int32 (offset_y rect + extent_height rect)"
  show ?case
  proof (cases "cy < characterHeight")
    case False
    then show ?thesis
      by (subst PutText_rows.simps) (simp add: confined_refl)
  next
    case True
    have nn: "0 \<le> cy + 1" using "1.prems"(4) by simp
    show ?thesis
    proof (cases ?skip)
      case skip: True
      from "1.IH"(1)[OF True refl skip "1.prems"(1-3) nn "1.prems"(5) "1.prems"(6)]
      obtain m' where r: "PutText_rows img rect font bakedChar color xadv yadv characterWidth
                 characterHeight (cy + 1) m = Inr m'"
        and c: "confined (width img) (height img) rect m m'"
        by blast
      have "PutText_rows img rect font bakedChar color xadv yadv characterWidth
                 characterHeight cy m = Inr m'"
        using True skip r by (subst PutText_rows.simps) (simp add: Let_def)
      with c show ?thesis by blast
    next
      case noskip: False
      then have dy: "0 \<le> ?destY" "?destY < height img" "offset_y rect \<le> ?destY"
        "?destY < offset_y rect + extent_height rect"
        unfolding "1.prems"(6) by simp_all
      have gl: "\<forall>k. 0 \<le> k \<and> k < characterWidth \<longrightarrow>
           (\<exists>v. glyph_load font (GetBakedCharRow font bakedChar cy + (k + int (bc_x0 bakedChar)))
                  = Inr v)"
        using "1.prems"(3) "1.prems"(4) True by blast
      from PutText_cols_confined[OF "1.prems"(1) "1.prems"(2) dy gl _ "1.prems"(5),
          where cx = 0 and color = color and xadv = xadv]
      obtain m1 where f: "PutText_cols img rect font bakedChar color xadv
             (GetBakedCharRow font bakedChar cy) (?destY * width img) characterWidth 0 m = Inr m1"
        and c1: "confined (width img) (height img) rect m m1"
        by auto
      have len1: "int (length (fst m1)) = width img * height img"
        using confined_length[OF c1] "1.prems"(2) by simp
      from "1.IH"(2)[OF True refl noskip refl refl f "1.prems"(1) len1 "1.prems"(3) nn
          "1.prems"(5) "1.prems"(6)]
      obtain m' where r: "PutText_rows img rect font bakedChar color xadv yadv characterWidth
                 characterHeight (cy + 1) m1 = Inr m'"
        and c2: "confined (width img) (height img) rect m1 m'"
        by blast
      have "PutText_rows img rect font bakedChar color xadv yadv characterWidth
                 characterHeight cy m = Inr m'"
        using True noskip f r by (subst PutText_rows.simps) (simp add: Let_def)
      with confined_trans[OF c1 c2] show ?thesis by blast
    qed
  qed
qed

lemma char_value_underscore: "char_value (CHR ''_'') = 95"
  by (simp add: char_value_def)

lemma GetBakedChar_index:
  "\<exists>n < 95. GetBakedChar font c = m_bakedChars font n"
proof -
  let ?safe = "if char_value c < StartChar \<or> char_value c > EndChar
               then char_value (CHR ''_'') else char_value c"
  have "nat (?safe - StartChar) < 95"
    by (auto simp: StartChar_def EndChar_def char_value_underscore)
  then show ?thesis
    unfolding GetBakedChar_def Let_def by blast
qed

lemma glyph_loads:
  assumes wf: "font_wf font"
  shows "\<forall>r k. 0 \<le> r \<and> r < int (bc_y1 (GetBakedChar font c)) - int (bc_y0 (GetBakedChar font c))
            \<and> 0 \<le> k \<and> k < int (bc_x1 (GetBakedChar font c)) - int (bc_x0 (GetBakedChar font c)) \<longrightarrow>
           (\<exists>v. glyph_load font (GetBakedCharRow font (GetBakedChar font c) r
                    + (k + int (bc_x0 (GetBakedChar font c)))) = Inr v)"
proof (intro allI impI)
  fix r k
  let ?bc = "GetBakedChar font c"
  assume a: "0 \<le> r \<and> r < int (bc_y1 ?bc) - int (bc_y0 ?bc)
            \<and> 0 \<le> k \<and> k < int (bc_x1 ?bc) - int (bc_x0 ?bc)"
  from GetBakedChar_index[of font c] wf
  have bw: "0 \<le> m_bitmapWidth font" and x1: "int (bc_x1 ?bc) \<le> m_bitmapWidth font"
    and y1: "int (bc_y1 ?bc) * m_bitmapWidth font \<le> int (length (glyphBitmap font))"
    by (auto simp: font_wf_def)
  have lo: "0 \<le> (r + int (bc_y0 ?bc)) * m_bitmapWidth font + (k + int (bc_x0 ?bc))"
    using a bw by simp
  have "(r + int (bc_y0 ?bc)) * m_bitmapWidth font + (k + int (bc_x0 ?bc) + 1)
          \<le> int (bc_y1 ?bc) * m_bitmapWidth font"
    using row_bound[of "m_bitmapWidth font" "r + int (bc_y0 ?bc)" "int (bc_y1 ?bc)"
        "k + int (bc_x0 ?bc) + 1"] a bw x1 by simp
  then have hi: "(r + int (bc_y0 ?bc)) * m_bitmapWidth font + (k + int (bc_x0 ?bc))
          < int (length (glyphBitmap font))"
    using y1 by simp
  show "\<exists>v. glyph_load font (GetBakedCharRow font ?bc r + (k + int (bc_x0 ?bc))) = Inr v"
    using lo hi by (simp add: glyph_load_def GetBakedCharRow_def)
qed

lemma memory_WordWrap_word [simp]:
  "memory (WordWrap_word rect font pixelHeight wordWrap fullText c rest st) = memory st"
  by (simp add: WordWrap_word_def Let_def)

lemma memory_WordWrap_char [simp]:
  "memory (WordWrap_char rect pixelHeight wordWrap fullText characterWidth st) = memory st"
  by (simp add: WordWrap_char_def)

lemma PutText_loop_confined:
  assumes "font_wf font" "0 \<le> width img"
    "int (length (fst (memory st))) = width img * height img"
    and "int32 (offset_x rect + extent_width rect) = offset_x rect + extent_width rect"
    and "int32 (offset_y rect + extent_height rect) = offset_y rect + extent_height rect"
  shows "\<exists>st'. PutText_loop img rect font pixelHeight color wordWrap fullText text st = Inr st'
           \<and> confined (width img) (height img) rect (memory st) (memory st')"
  using assms
proof (induction "text" arbitrary: st)
  case Nil
  then show ?case by (simp add: confined_refl)
next
  case (Cons c rest)
  show ?case
  proof (cases "c = CHR 0x00")
    case True
    then show ?thesis by (simp add: confined_refl)
  next
    case notnul: False
    show ?thesis
    proof (cases "c = CHR 0x0A")
      case True
      let ?st = "st\<lparr>xadvance := real_of_int (offset_x rect),
                       yadvance := int32 (yadvance st + pixelHeight)\<rparr>"
      have "int (length (fst (memory ?st))) = width img * height img"
        using Cons.prems(3) by simp
      from Cons.IH[OF Cons.prems(1) Cons.prems(2) this Cons.prems(4) Cons.prems(5)]
      show ?thesis using True notnul by simp
    next
      case False
      let ?st1 = "WordWrap_word rect font pixelHeight wordWrap fullText c rest st"
      let ?bc = "GetBakedChar font c"
      let ?cw = "int (bc_x1 ?bc) - int (bc_x0 ?bc)"
      let ?ch = "int (bc_y1 ?bc) - int (bc_y0 ?bc)"
      let ?st2 = "WordWrap_char rect pixelHeight wordWrap fullText ?cw ?st1"
      have len2: "int (length (fst (memory ?st2))) = width img * height img"
        using Cons.prems(3) by simp
      from PutText_rows_confined[OF Cons.prems(2) len2 glyph_loads[OF Cons.prems(1), of c] _
          Cons.prems(4) Cons.prems(5),
          where cy = 0 and color = color and xadv = "xadvance ?st2" and yadv = "yadvance ?st2"]
      obtain m' where rows: "PutText_rows img rect font ?bc color (xadvance ?st2) (yadvance ?st2)
                      ?cw ?ch 0 (memory ?st2) = Inr m'"
        and c1: "confined (width img) (height img) rect (memory ?st2) m'"
        by auto
      let ?st3 = "?st2\<lparr>memory := m', xadvance := xadvance ?st2 + bc_xadvance ?bc\<rparr>"
      have len3: "int (length (fst (memory ?st3))) = width img * height img"
        using confined_length[OF c1] len2 by simp
      from Cons.IH[OF Cons.prems(1) Cons.prems(2) len3 Cons.prems(4) Cons.prems(5)]
      obtain st' where r: "PutText_loop img rect font pixelHeight color wordWrap fullText rest ?st3
                             = Inr st'"
        and c2: "confined (width img) (height img) rect (memory ?st3) (memory st')"
        by blast
      have eq: "PutText_loop img rect font pixelHeight color wordWrap fullText (c # rest) st = Inr st'"
        using notnul False rows r by (simp add: Let_def)
      have "confined (width img) (height img) rect (memory st) (memory st')"
        using confined_trans[OF _ c2, of "memory st"] c1 by simp
      with eq show ?thesis by blast
    qed
  qed
qed

lemma GetOrCreate_creates:
  "bake pixelHeight = Inr f \<Longrightarrow>
   GetOrCreate bake heap pixelHeight = (Inr (length heap), heap @ [f])"
  by (simp add: GetOrCreate_def)

text \<open>
  C5. With the font of the pixel height available and its glyph boxes inside its atlas,
  and a rectangle whose right and lower edges \<open>offset + extent\<close> are \<open>int\<close>s,
  \<open>PutText\<close> on a well-formed image returns normally for every text and wrap mode: no
  load or store leaves a buffer, and glyph pixels outside the canvas or the rectangle are
  skipped. No pixel of the canvas outside the rectangle is stored to, and each holds what
  it held.
\<close>

theorem PutText_confined_to_rectangle:
  assumes wf: "image_wf img" and bk: "bake pixelHeight = Inr font" and fwf: "font_wf font"
    and xr: "- (2 ^ 31) \<le> offset_x rect + extent_width rect"
      "offset_x rect + extent_width rect < 2 ^ 31"
    and yr: "- (2 ^ 31) \<le> offset_y rect + extent_height rect"
      "offset_y rect + extent_height rect < 2 ^ 31"
  shows "\<exists>img' lg ws heap'.
       PutText bake heap img rect text pixelHeight color wordWrap = (Inr (img', lg, ws), heap')
     \<and> width img' = width img \<and> height img' = height img
     \<and> length (pixels img') = length (pixels img)
     \<and> (\<forall>i j. 0 \<le> i \<and> i < width img \<and> 0 \<le> j \<and> j < height img
            \<and> \<not> (offset_x rect \<le> i \<and> i < offset_x rect + extent_width rect
                 \<and> offset_y rect \<le> j \<and> j < offset_y rect + extent_height rect) \<longrightarrow>
           pixel_at img' i j = pixel_at img i j \<and> stores_to img lg i j = 0)"
proof -
  let ?st0 = "PutText_start img rect pixelHeight"
  have wd: "0 \<le> width img"
    and len: "int (length (fst (memory ?st0))) = width img * height img"
    using wf by (simp_all add: image_wf_def PutText_start_def)
  note xe = int32_id[OF xr] and ye = int32_id[OF yr]
  from PutText_loop_confined[OF fwf wd len xe ye, of pixelHeight color wordWrap "text" "text"]
  obtain st' where r: "PutText_loop img rect font pixelHeight color wordWrap text text ?st0 = Inr st'"
    and c: "confined (width img) (height img) rect (memory ?st0) (memory st')"
    by blast
  have eq: "PutText bake heap img rect text pixelHeight color wordWrap
              = (Inr (img\<lparr>pixels := fst (memory st')\<rparr>, snd (memory st'), warnings st'),
                 heap @ [font])"
    using r by (simp add: PutText_def GetOrCreate_creates[of bake pixelHeight, OF bk])
  have m0: "memory ?st0 = (pixels img, [])"
    by (simp add: PutText_start_def)
  have l: "length (pixels (img\<lparr>pixels := fst (memory st')\<rparr>)) = length (pixels img)"
    using confined_length[OF c] m0 by simp
  have px: "\<forall>i j. 0 \<le> i \<and> i < width img \<and> 0 \<le> j \<and> j < height img
            \<and> \<not> (offset_x rect \<le> i \<and> i < offset_x rect + extent_width rect
                 \<and> offset_y rect \<le> j \<and> j < offset_y rect + extent_height rect) \<longrightarrow>
           pixel_at (img\<lparr>pixels := fst (memory st')\<rparr>) i j = pixel_at img i j
           \<and> stores_to img (snd (memory st')) i j = 0"
    using c unfolding confined_def m0
    by (simp add: pixel_at_def pixel_index_def stores_to_def)
  show ?thesis
    using eq l px
    by (intro exI[of _ "img\<lparr>pixels := fst (memory st')\<rparr>"] exI[of _ "snd (memory st')"]
        exI[of _ "warnings st'"] exI[of _ "heap @ [font]"]) simp
qed

lemma block_font_wf: "font_wf block_font"
  by (simp add: font_wf_def block_font_def block_char_def)

theorem PutText_confined_to_rectangle_witness:
  "image_wf image_4x3 \<and> bake_block 2 = Inr block_font \<and> font_wf block_font
   \<and> - (2 ^ 31) \<le> offset_x rect_1_0_2_3 + extent_width rect_1_0_2_3
   \<and> offset_x rect_1_0_2_3 + extent_width rect_1_0_2_3 < 2 ^ 31
   \<and> - (2 ^ 31) \<le> offset_y rect_1_0_2_3 + extent_height rect_1_0_2_3
   \<and> offset_y rect_1_0_2_3 + extent_height rect_1_0_2_3 < 2 ^ 31
   \<and> (\<exists>img' lg ws heap'.
        PutText bake_block [] image_4x3 rect_1_0_2_3 ''ab'' 2 orange Enabled
          = (Inr (img', lg, ws), heap')
        \<and> pixel_at img' 0 0 = shade 0 \<and> stores_to image_4x3 lg 0 0 = 0
        \<and> pixel_at img' 3 1 = shade 7 \<and> stores_to image_4x3 lg 3 1 = 0)"
proof -
  have bk: "bake_block 2 = Inr block_font" by (simp add: bake_block_def)
  have rg: "- (2 ^ 31) \<le> offset_x rect_1_0_2_3 + extent_width rect_1_0_2_3"
    "offset_x rect_1_0_2_3 + extent_width rect_1_0_2_3 < 2 ^ 31"
    "- (2 ^ 31) \<le> offset_y rect_1_0_2_3 + extent_height rect_1_0_2_3"
    "offset_y rect_1_0_2_3 + extent_height rect_1_0_2_3 < 2 ^ 31"
    by (simp_all add: rect_1_0_2_3_def)
  from PutText_confined_to_rectangle[of image_4x3 bake_block 2 block_font rect_1_0_2_3 "[]"
      "''ab''" orange Enabled, OF image_4x3_wf bk block_font_wf rg]
  obtain img' lg ws heap' where
    eq: "PutText bake_block [] image_4x3 rect_1_0_2_3 ''ab'' 2 orange Enabled
          = (Inr (img', lg, ws), heap')"
    and px: "\<And>i j. 0 \<le> i \<and> i < width image_4x3 \<and> 0 \<le> j \<and> j < height image_4x3
            \<and> \<not> (offset_x rect_1_0_2_3 \<le> i \<and> i < offset_x rect_1_0_2_3 + extent_width rect_1_0_2_3
                 \<and> offset_y rect_1_0_2_3 \<le> j
                 \<and> j < offset_y rect_1_0_2_3 + extent_height rect_1_0_2_3) \<Longrightarrow>
           pixel_at img' i j = pixel_at image_4x3 i j \<and> stores_to image_4x3 lg i j = 0"
    by blast
  have a: "pixel_at img' 0 0 = shade 0 \<and> stores_to image_4x3 lg 0 0 = 0"
    using px[of 0 0] by (simp add: image_4x3_def rect_1_0_2_3_def pixel_at_def pixel_index_def)
  have b: "pixel_at img' 3 1 = shade 7 \<and> stores_to image_4x3 lg 3 1 = 0"
    using px[of 3 1] by (simp add: image_4x3_def rect_1_0_2_3_def pixel_at_def pixel_index_def)
  show ?thesis using image_4x3_wf bk block_font_wf rg eq a b by blast
qed

lemma PutText_block_a:
  "fst (PutText bake_block [] image_4x3 rect_1_0_2_3 ''a'' 2 orange Enabled)
     = Inr (image_4x3\<lparr>pixels := [shade 0, orange32, orange32, shade 3, shade 4, shade 5, shade 6,
              shade 7, shade 8, shade 9, shade 10, shade 11]\<rparr>, [2, 1], [])"
  by (simp add: PutText_def GetOrCreate_def bake_block_def PutText_start_def
      PutText_rows.simps PutText_cols.simps WordWrap_word_def WordWrap_char_def
      GetBakedChar_def GetBakedCharRow_def StartChar_def EndChar_def char_value_def
      block_font_def block_char_def glyph_load_def load_def store_def blend_pixel_def
      blend_channel_def float_to_uint8_def float_to_int_def lround_def int32_def
      fl32_def fl32_pos_def binade_def round_even_def ilog2.simps
      image_4x3_def rect_1_0_2_3_def orange_def orange32_def shade_def Let_def)

text \<open>
  Outside the hypotheses of the theorem the 32-bit sums decide: with \<open>rect_wrapping\<close>
  the right edge is \<open>INT_MAX\<close>, nothing is wrapped to a new line and the glyph's second
  column is composited at column 0 of row 0.
\<close>

lemma PutText_wrapping_rectangle:
  "fst (PutText bake_block [] image_4x3 rect_wrapping ''a'' 2 orange Enabled)
     = Inr (image_4x3\<lparr>pixels := [orange32, shade 1, shade 2, shade 3, shade 4, shade 5, shade 6,
              shade 7, shade 8, shade 9, shade 10, shade 11]\<rparr>, [0], [])"
  by (simp add: PutText_def GetOrCreate_def bake_block_def PutText_start_def
      PutText_rows.simps PutText_cols.simps WordWrap_word_def WordWrap_char_def
      GetBakedChar_def GetBakedCharRow_def StartChar_def EndChar_def char_value_def
      block_font_def block_char_def glyph_load_def load_def store_def blend_pixel_def
      blend_channel_def float_to_uint8_def float_to_int_def lround_def int32_def
      fl32_def fl32_pos_def binade_def round_even_def ilog2.simps
      image_4x3_def rect_wrapping_def orange_def orange32_def shade_def Let_def)

section \<open>The word wrap and the blend\<close>

text \<open>
  C4. Two places where the word wrap of lines 203-225 departs from the look-ahead the
  claim describes. The loop of lines 206-209 adds the advance of the current character
  once per character of the word: before "iW", with advances 1 and 3, it finds 2 and not
  4. Line 214 compares the width with \<open>extent.width - offset.x\<close>: in a rectangle at
  column 5 of width 6, with the cursor at column 9, the word "bb" of width 4 does not fit
  the rest of the line (9 + 4 > 11) and fits an empty line (4 \<le> 6), yet nothing is
  wrapped when wrapping is enabled and nothing is reported when it is disabled.
\<close>

theorem WordWrap_word_misses_wrap:
  "RemainingWordWidth narrow_i_font (CHR ''i'') ''iW'' 0 = 2
   \<and> bc_xadvance (GetBakedChar narrow_i_font (CHR ''i''))
       + bc_xadvance (GetBakedChar narrow_i_font (CHR ''W'')) = 4
   \<and> RemainingWordWidth block_font (CHR ''b'') ''bb'' 0 = 4
   \<and> xadvance at_column_9 + 4 > real_of_int (offset_x rect_5_0_6_3 + extent_width rect_5_0_6_3)
   \<and> 4 \<le> real_of_int (extent_width rect_5_0_6_3)
   \<and> WordWrap_word rect_5_0_6_3 block_font 2 Enabled ''a bb'' (CHR ''b'') ''b'' at_column_9
       = at_column_9
   \<and> WordWrap_word rect_5_0_6_3 block_font 2 Disabled ''a bb'' (CHR ''b'') ''b'' at_column_9
       = at_column_9"
  by (simp add: WordWrap_word_def GetBakedChar_def StartChar_def EndChar_def char_value_def
      narrow_i_font_def block_font_def block_char_def rect_5_0_6_3_def at_column_9_def Let_def
      int32_def)

text \<open>
  The whole call on that input, with wrapping disabled: the only line reported is that of
  the single-character wrap (lines 231-241) before the second "b"; the look-ahead reports
  nothing. (The image is 4 wide, so every glyph pixel is clipped.)
\<close>

lemma PutText_a_bb_reports_once:
  "fst (PutText bake_block [] image_4x3 rect_5_0_6_3 ''a bb'' 2 orange Disabled)
     = Inr (image_4x3\<lparr>pixels := pixels image_4x3\<rparr>, [], [''a bb''])"
  by (simp add: PutText_def GetOrCreate_def bake_block_def PutText_start_def
      PutText_rows.simps PutText_cols.simps WordWrap_word_def WordWrap_char_def
      GetBakedChar_def GetBakedCharRow_def StartChar_def EndChar_def char_value_def
      block_font_def block_char_def glyph_load_def load_def store_def blend_pixel_def
      blend_channel_def float_to_uint8_def float_to_int_def lround_def int32_def
      fl32_def fl32_pos_def binade_def round_even_def ilog2.simps
      image_4x3_def rect_5_0_6_3_def orange_def shade_def Let_def)

subsection \<open>Rounding to binary32\<close>

lemma ilog2_le: "n < 2 ^ Suc k \<Longrightarrow> ilog2 n \<le> k"
proof (induction n arbitrary: k rule: ilog2.induct)
  case (1 n)
  show ?case
  proof (cases "n < 2")
    case True
    then show ?thesis by (simp add: ilog2.simps)
  next
    case False
    then obtain j where k: "k = Suc j"
      using "1.prems" by (cases k) auto
    have "n div 2 < 2 ^ Suc j"
      using "1.prems" k by auto
    from "1.IH"[OF False this] have "ilog2 (n div 2) \<le> j" .
    with False k show ?thesis by (simp add: ilog2.simps)
  qed
qed

lemma ilog2_bounds: "0 < n \<Longrightarrow> 2 ^ ilog2 n \<le> n \<and> n < 2 ^ Suc (ilog2 n)"
proof (induction n rule: ilog2.induct)
  case (1 n)
  show ?case
  proof (cases "n < 2")
    case True
    with "1.prems" show ?thesis by (simp add: ilog2.simps)
  next
    case False
    then have "0 < n div 2" by auto
    from "1.IH"[OF False this]
    have a: "2 ^ ilog2 (n div 2) \<le> n div 2" and b: "n div 2 < 2 ^ Suc (ilog2 (n div 2))"
      by simp_all
    have e: "ilog2 n = Suc (ilog2 (n div 2))"
      using False by (subst ilog2.simps) simp
    from a have "2 * 2 ^ ilog2 (n div 2) \<le> n" by linarith
    moreover from b have "n < 2 * 2 ^ Suc (ilog2 (n div 2))" by linarith
    ultimately show ?thesis unfolding e by simp
  qed
qed

lemma binade_le_7: "v < 256 \<Longrightarrow> binade v \<le> 7"
proof (cases "1 \<le> v")
  case True
  assume "v < 256"
  then have "\<lfloor>v\<rfloor> < 256" by (simp add: floor_less_iff)
  then have "nat \<lfloor>v\<rfloor> < 256" by linarith
  then have "nat \<lfloor>v\<rfloor> < 2 ^ Suc 7" by simp
  from ilog2_le[OF this] True show ?thesis by (simp add: binade_def)
next
  case False
  then show ?thesis by (simp add: binade_def)
qed

lemma round_even_cases:
  "round_even v = \<lfloor>v\<rfloor> \<and> v - of_int \<lfloor>v\<rfloor> \<le> 1 / 2
   \<or> round_even v = \<lfloor>v\<rfloor> + 1 \<and> 1 / 2 \<le> v - of_int \<lfloor>v\<rfloor>"
  by (auto simp: round_even_def)

lemma round_even_error: "\<bar>of_int (round_even v) - v\<bar> \<le> 1 / 2"
proof -
  have "of_int \<lfloor>v\<rfloor> \<le> v" "v < of_int \<lfloor>v\<rfloor> + 1" by linarith+
  with round_even_cases[of v] show ?thesis by auto
qed

lemma round_even_nonneg: "0 \<le> v \<Longrightarrow> 0 \<le> round_even v"
proof -
  assume "0 \<le> v"
  then have "0 \<le> \<lfloor>v\<rfloor>" by simp
  with round_even_cases[of v] show ?thesis by auto
qed

lemma round_even_le: "v \<le> of_int k \<Longrightarrow> round_even v \<le> k"
proof -
  assume le: "v \<le> of_int k"
  then have f: "\<lfloor>v\<rfloor> \<le> k" by (simp add: floor_le_iff)
  show ?thesis
  proof (cases "\<lfloor>v\<rfloor> = k")
    case True
    then have "v - of_int \<lfloor>v\<rfloor> \<le> 0" using le by simp
    then have "round_even v = \<lfloor>v\<rfloor>" by (simp add: round_even_def)
    with True show ?thesis by simp
  next
    case False
    with f have "\<lfloor>v\<rfloor> + 1 \<le> k" by simp
    with round_even_cases[of v] f show ?thesis by auto
  qed
qed

lemma fl32_product:
  fixes a :: int
  assumes v: "0 \<le> v" "v \<le> of_int a" and a: "a \<le> 255"
  shows "0 \<le> fl32 v" "fl32 v \<le> of_int a" "\<bar>fl32 v - v\<bar> \<le> 1 / 2 ^ 17"
proof -
  define e where "e = binade v"
  define n where "n = nat (23 - e)"
  define S :: real where "S = 2 ^ n"
  have "v < 256" using v a by linarith
  then have e7: "e \<le> 7" unfolding e_def by (rule binade_le_7)
  then have n16: "16 \<le> n" by (simp add: n_def)
  have Spos: "0 < S" by (simp add: S_def)
  have "(2::real) ^ 16 \<le> 2 ^ n" using n16 by (intro power_increasing) simp_all
  then have S16: "2 ^ 16 \<le> S" by (simp add: S_def)
  have fl: "fl32 v = of_int (round_even (v * S)) / S"
    using v(1) e7 by (simp add: fl32_def fl32_pos_def Let_def e_def[symmetric] n_def S_def)
  have "0 \<le> v * S" using v Spos by simp
  from round_even_nonneg[OF this] Spos show "0 \<le> fl32 v"
    unfolding fl by simp
  have "v * S \<le> of_int a * S" using v Spos by simp
  also have "of_int a * S = of_int (a * 2 ^ n)" by (simp add: S_def)
  finally have "round_even (v * S) \<le> a * 2 ^ n" by (rule round_even_le)
  then have "real_of_int (round_even (v * S)) \<le> of_int (a * 2 ^ n)" by (simp only: of_int_le_iff)
  then have "real_of_int (round_even (v * S)) \<le> of_int a * S" by (simp add: S_def)
  then show "fl32 v \<le> of_int a"
    unfolding fl using Spos by (simp add: pos_divide_le_eq)
  have "fl32 v - v = (of_int (round_even (v * S)) - v * S) / S"
    unfolding fl using Spos by (simp add: field_simps)
  then have "\<bar>fl32 v - v\<bar> = \<bar>of_int (round_even (v * S)) - v * S\<bar> / S"
    using Spos by simp
  also have "\<dots> \<le> (1 / 2) / S"
    using round_even_error[of "v * S"] Spos by (intro divide_right_mono) simp_all
  also have "\<dots> \<le> (1 / 2) / 2 ^ 16"
    using S16 by (intro divide_left_mono) simp_all
  finally show "\<bar>fl32 v - v\<bar> \<le> 1 / 2 ^ 17" by simp
qed


lemma binade_ge_1:
  assumes "1 \<le> v"
  shows "2 powi binade v \<le> v \<and> v < 2 powi (binade v + 1)"
proof -
  define n where "n = nat \<lfloor>v\<rfloor>"
  have n1: "0 < n" using assms by (simp add: n_def)
  have nv: "real n \<le> v" "v < real n + 1"
    using assms by (simp_all add: n_def)
  from ilog2_bounds[OF n1] have lo: "2 ^ ilog2 n \<le> n" and hi: "n < 2 ^ Suc (ilog2 n)"
    by simp_all
  from lo have "real (2 ^ ilog2 n) \<le> real n" by (simp only: of_nat_le_iff)
  moreover have "real (2 ^ ilog2 n) = 2 ^ ilog2 n" by simp
  ultimately have a: "(2::real) ^ ilog2 n \<le> v" using nv by linarith
  from hi have "n + 1 \<le> 2 ^ Suc (ilog2 n)" by simp
  then have "real (n + 1) \<le> real (2 ^ Suc (ilog2 n))" by (simp only: of_nat_le_iff)
  moreover have "real (2 ^ Suc (ilog2 n)) = 2 ^ Suc (ilog2 n)" "real (n + 1) = real n + 1"
    by simp_all
  ultimately have b: "v < (2::real) ^ Suc (ilog2 n)" using nv by linarith
  have e: "binade v = int (ilog2 n)" using assms by (simp add: binade_def n_def)
  have p1: "(2::real) powi int (ilog2 n) = 2 ^ ilog2 n" by (simp add: power_int_def)
  have p2: "(2::real) powi (int (ilog2 n) + 1) = 2 ^ Suc (ilog2 n)"
    by (simp add: power_int_def nat_add_distrib)
  show ?thesis unfolding e p1 p2 using a b by simp
qed


lemma binade_lt_1:
  assumes v: "2 powi (- 126) \<le> v" "v < 1"
  shows "2 powi binade v \<le> v \<and> v < 2 powi (binade v + 1)"
proof -
  have vpos: "0 < v"
  proof -
    have "(0::real) < 2 powi (- 126)" by simp
    with v(1) show ?thesis by linarith
  qed
  define m where "m = nat (\<lceil>1 / v\<rceil> - 1)"
  have inv1: "1 < 1 / v" using vpos v(2) by simp
  then have c2: "2 \<le> \<lceil>1 / v\<rceil>" by linarith
  then have m1: "0 < m" by (simp add: m_def)
  have mv: "real m < 1 / v" "1 / v \<le> real m + 1"
  proof -
    have "real_of_int (\<lceil>1 / v\<rceil> - 1) < 1 / v" "1 / v \<le> real_of_int \<lceil>1 / v\<rceil>" by linarith+
    moreover have "0 \<le> \<lceil>1 / v\<rceil> - 1" using c2 by linarith
    then have "int m = \<lceil>1 / v\<rceil> - 1" unfolding m_def by (simp only: int_nat_eq if_True)
    then have "real_of_int (int m) = real_of_int (\<lceil>1 / v\<rceil> - 1)" by (simp only:)
    then have "real m = real_of_int (\<lceil>1 / v\<rceil> - 1)" by simp
    ultimately show "real m < 1 / v" "1 / v \<le> real m + 1" by simp_all
  qed
  define k where "k = ilog2 m"
  from ilog2_bounds[OF m1] have lo: "2 ^ k \<le> m" and hi: "m < 2 ^ Suc k"
    by (simp_all add: k_def)
  from lo have "real (2 ^ k) \<le> real m" by (simp only: of_nat_le_iff)
  moreover have "real (2 ^ k) = 2 ^ k" by simp
  ultimately have a: "(2::real) ^ k < 1 / v" using mv by linarith
  from hi have "m + 1 \<le> 2 ^ Suc k" by simp
  then have "real (m + 1) \<le> real (2 ^ Suc k)" by (simp only: of_nat_le_iff)
  moreover have "real (2 ^ Suc k) = 2 ^ Suc k" "real (m + 1) = real m + 1" by simp_all
  ultimately have b: "1 / v \<le> (2::real) ^ Suc k" using mv by linarith
  from a vpos have up: "v < 1 / 2 ^ k"
    by (simp add: field_simps)
  from b vpos have dn: "1 / 2 ^ Suc k \<le> v"
    by (simp add: field_simps)
  have p1: "(2::real) powi (- int k - 1) = 1 / 2 ^ Suc k"
    by (simp add: power_int_def nat_add_distrib field_simps)
  have p2: "(2::real) powi (- int k - 1 + 1) = 1 / 2 ^ k"
    by (simp add: power_int_def field_simps)
  have ge: "- 126 \<le> - int k - 1"
  proof (rule ccontr)
    assume "\<not> - 126 \<le> - int k - 1"
    then have "126 \<le> int k" by simp
    then have "126 \<le> k" by simp
    then have "(2::real) ^ 126 \<le> 2 ^ k" by (intro power_increasing) simp_all
    then have "1 / (2::real) ^ k \<le> 1 / 2 ^ 126"
      by (intro divide_left_mono) simp_all
    with up have "v < 1 / 2 ^ 126" by linarith
    moreover have "(2::real) powi (- 126) = 1 / 2 ^ 126" by (simp add: power_int_def field_simps)
    ultimately show False using v(1) by simp
  qed
  have e: "binade v = - int k - 1"
    using v(2) vpos ge by (simp add: binade_def m_def[symmetric] k_def[symmetric])
  show ?thesis unfolding e p1 p2 using up dn by simp
qed

lemma binade_normal:
  "2 powi (- 126) \<le> v \<Longrightarrow> 2 powi binade v \<le> v \<and> v < 2 powi (binade v + 1)"
  using binade_ge_1[of v] binade_lt_1[of v] by (cases "1 \<le> v") simp_all

lemma fl32_examples:
  "fl32 (10 * (11744051 / 16777216)) = 7" "fl32 (100 * (1 / 2)) = 50"
  "fl32 (101 * (1 / 2)) = 101 / 2" "fl32 0 = 0"
  by (simp_all add: fl32_def fl32_pos_def binade_def round_even_def ilog2.simps Let_def)

subsection \<open>The blend\<close>

lemma u8_small: "0 \<le> n \<Longrightarrow> n < 256 \<Longrightarrow> uint (word_of_int n :: 8 word) = n"
  by (simp add: uint_word_of_int)

lemma blend_arith:
  fixes a b :: int and c :: real
  assumes a: "0 \<le> a" "a \<le> 255" and b: "0 \<le> b" "b \<le> 255" and c: "0 \<le> c" "c \<le> 1"
  shows "0 \<le> fl32 (real_of_int a * c)" "0 \<le> \<lfloor>fl32 (real_of_int a * c)\<rfloor>"
    "\<lfloor>fl32 (real_of_int a * c)\<rfloor> \<le> a"
    "0 \<le> (b * (255 - a)) div 255" "(b * (255 - a)) div 255 \<le> 255 - a"
    "\<bar>fl32 (real_of_int a * c) - real_of_int a * c\<bar> \<le> 1 / 2 ^ 17"
proof -
  have p0: "0 \<le> real_of_int a * c" using a c by simp
  have "real_of_int a * c \<le> real_of_int a * 1"
    using a c by (intro mult_left_mono) simp_all
  then have p1: "real_of_int a * c \<le> of_int a" by simp
  note f = fl32_product[OF p0 p1 a(2)]
  show f0: "0 \<le> fl32 (real_of_int a * c)" by (rule f(1))
  then show "0 \<le> \<lfloor>fl32 (real_of_int a * c)\<rfloor>" by simp
  show "\<lfloor>fl32 (real_of_int a * c)\<rfloor> \<le> a" using f(2) by (simp add: floor_le_iff)
  show "\<bar>fl32 (real_of_int a * c) - real_of_int a * c\<bar> \<le> 1 / 2 ^ 17" by (rule f(3))
  have nn: "0 \<le> b * (255 - a)" using a b by simp
  then show "0 \<le> (b * (255 - a)) div 255" by (simp add: pos_imp_zdiv_nonneg_iff)
  have "b * (255 - a) \<le> 255 * (255 - a)"
    using a b by (intro mult_right_mono) simp_all
  then have "(b * (255 - a)) div 255 \<le> (255 * (255 - a)) div 255"
    by (intro zdiv_mono1) simp_all
  then show "(b * (255 - a)) div 255 \<le> 255 - a" by simp
qed

lemma blend_channel_value:
  assumes c: "0 \<le> c" "c \<le> 1"
  shows "uint (blend_channel s c d)
           = \<lfloor>fl32 (real_of_int (uint s) * c)\<rfloor> + (uint d * (255 - uint s)) div 255"
proof -
  define a where "a = uint s"
  define b where "b = uint d"
  define F where "F = fl32 (real_of_int a * c)"
  have a: "0 \<le> a" "a \<le> 255" and b: "0 \<le> b" "b \<le> 255"
    using uint_lt2p[of s] uint_lt2p[of d] by (simp_all add: a_def b_def)
  note ar = blend_arith[OF a b c, folded F_def]
  have "float_to_int F = \<lfloor>F\<rfloor>"
    using ar(1) by (simp only: float_to_int_def if_True)
  moreover have "\<lfloor>F\<rfloor> < 256" using ar(3) a by linarith
  ultimately have u: "uint (float_to_uint8 F) = \<lfloor>F\<rfloor>"
    using ar(2) by (simp only: float_to_uint8_def u8_small)
  have "uint (word_of_int (\<lfloor>F\<rfloor> + (b * (255 - a)) div 255) :: 8 word)
          = \<lfloor>F\<rfloor> + (b * (255 - a)) div 255"
    using ar a by (intro u8_small) linarith+
  then have "uint (blend_channel s c d) = \<lfloor>F\<rfloor> + (b * (255 - a)) div 255"
    by (simp only: blend_channel_def u a_def[symmetric] b_def[symmetric] F_def[symmetric])
  then show ?thesis by (simp only: a_def b_def F_def)
qed

text \<open>
  C6, as stated: with coverage 101, colour 1/2 and destination 200 (all exact in
  binary32) the code stores 50 + 120 = 170; the blend equation gives 171 + 29/102, which
  is 171 whether truncated or rounded to 8 bits.
\<close>

theorem blend_equation_not_exact:
  "uint (blend_channel 101 (1 / 2) 200) = 170
   \<and> blend_equation 101 (1 / 2) 200 = 171 + 29 / 102
   \<and> \<lfloor>blend_equation 101 (1 / 2) 200\<rfloor> = 171
   \<and> real_of_int (uint (blend_channel 101 (1 / 2) 200)) \<noteq> blend_equation 101 (1 / 2) 200"
  by (simp add: blend_channel_def blend_equation_def float_to_uint8_def float_to_int_def
      fl32_def fl32_pos_def binade_def round_even_def ilog2.simps Let_def)

lemma blend_channel_7:
  "uint (blend_channel 10 (11744051 / 16777216) 0) = 7"
  by (simp add: blend_channel_def float_to_uint8_def float_to_int_def
      fl32_def fl32_pos_def binade_def round_even_def ilog2.simps Let_def)

lemma blend_channel_bounds:
  assumes c: "0 \<le> c" "c \<le> 1"
  shows "real_of_int (uint (blend_channel s c d)) \<le> blend_equation (uint s) c (uint d) + 1 / 2 ^ 17"
    and "blend_equation (uint s) c (uint d)
           < real_of_int (uint (blend_channel s c d)) + 2 + 1 / 2 ^ 17"
proof -
  define a where "a = uint s"
  define b where "b = uint d"
  define p where "p = real_of_int a * c"
  define F where "F = fl32 p"
  define q where "q = real_of_int (b * (255 - a)) / 255"
  have a: "0 \<le> a" "a \<le> 255" and b: "0 \<le> b" "b \<le> 255"
    using uint_lt2p[of s] uint_lt2p[of d] by (simp_all add: a_def b_def)
  have err: "\<bar>F - p\<bar> \<le> 1 / 2 ^ 17"
    using blend_arith(6)[OF a b c] by (simp only: F_def p_def)
  have v: "uint (blend_channel s c d) = \<lfloor>F\<rfloor> + (b * (255 - a)) div 255"
    using blend_channel_value[OF c, of s d] by (simp only: a_def b_def p_def F_def)
  have fq: "(b * (255 - a)) div 255 = \<lfloor>q\<rfloor>"
    unfolding q_def using floor_divide_of_int_eq[of "b * (255 - a)" 255, where ?'a = real]
    by simp
  have e: "blend_equation a c b = p + q"
    by (simp add: blend_equation_def p_def q_def algebra_simps diff_divide_distrib)
  have lp: "real_of_int \<lfloor>F\<rfloor> \<le> F" and lq: "real_of_int \<lfloor>q\<rfloor> \<le> q"
    and up: "F < real_of_int \<lfloor>F\<rfloor> + 1" and uq: "q < real_of_int \<lfloor>q\<rfloor> + 1"
    by linarith+
  have "real_of_int (\<lfloor>F\<rfloor> + \<lfloor>q\<rfloor>) \<le> p + q + 1 / 2 ^ 17"
    unfolding of_int_add using lp lq err by linarith
  then show "real_of_int (uint (blend_channel s c d)) \<le> blend_equation (uint s) c (uint d) + 1 / 2 ^ 17"
    unfolding v fq e[unfolded a_def b_def] .
  have "p + q < real_of_int (\<lfloor>F\<rfloor> + \<lfloor>q\<rfloor>) + 2 + 1 / 2 ^ 17"
    unfolding of_int_add using up uq err by linarith
  then show "blend_equation (uint s) c (uint d)
           < real_of_int (uint (blend_channel s c d)) + 2 + 1 / 2 ^ 17"
    unfolding v fq e[unfolded a_def b_def] .
qed

text \<open>
  C6, as amended. When \<open>PutText\<close> composites a glyph pixel (the column is inside the
  canvas and the rectangle), it stores \<open>blend_pixel\<close> of the coverage, the colour and
  the destination pixel at the destination and goes on with the next column. For a
  normalized colour each of R, G, B and A is, independently of the other three,
  \<open>\<lfloor>fl32 (coverage * color)\<rfloor> + (dest * (255 - coverage)) div 255\<close>: the two terms of
  the blend equation, the first computed in binary32, each truncated to an integer before
  they are added. The value is at most \<open>2^-17\<close> above that of the blend equation and
  less than \<open>2 + 2^-17\<close> below it.
\<close>

theorem PutText_composites_truncated_blend:
  assumes cx: "cx < characterWidth"
    and dx: "destX = int32 (int32 (lround (bc_xoff bakedChar + xadv)) + cx)"
    and ins: "0 \<le> destX" "destX < width img" "offset_x rect \<le> destX"
      "destX < int32 (offset_x rect + extent_width rect)"
    and g: "glyph_load font (srcGlyphRow + (cx + int (bc_x0 bakedChar))) = Inr coverage"
    and ld: "load m (destImageRow + destX) = Inr dest"
    and r: "0 \<le> col_r color" "col_r color \<le> 1" and gr: "0 \<le> col_g color" "col_g color \<le> 1"
    and b: "0 \<le> col_b color" "col_b color \<le> 1" and a: "0 \<le> col_a color" "col_a color \<le> 1"
  shows "\<exists>m'. store m (destImageRow + destX) (blend_pixel coverage color dest) = Inr m'
      \<and> PutText_cols img rect font bakedChar color xadv srcGlyphRow destImageRow characterWidth cx m
          = PutText_cols img rect font bakedChar color xadv srcGlyphRow destImageRow characterWidth
              (cx + 1) m'
      \<and> fst m' ! nat (destImageRow + destX) = blend_pixel coverage color dest
      \<and> uint (Channels_R (blend_pixel coverage color dest))
          = \<lfloor>fl32 (real_of_int (uint coverage) * col_r color)\<rfloor>
            + (uint (Channels_R dest) * (255 - uint coverage)) div 255
      \<and> uint (Channels_G (blend_pixel coverage color dest))
          = \<lfloor>fl32 (real_of_int (uint coverage) * col_g color)\<rfloor>
            + (uint (Channels_G dest) * (255 - uint coverage)) div 255
      \<and> uint (Channels_B (blend_pixel coverage color dest))
          = \<lfloor>fl32 (real_of_int (uint coverage) * col_b color)\<rfloor>
            + (uint (Channels_B dest) * (255 - uint coverage)) div 255
      \<and> uint (Channels_A (blend_pixel coverage color dest))
          = \<lfloor>fl32 (real_of_int (uint coverage) * col_a color)\<rfloor>
            + (uint (Channels_A dest) * (255 - uint coverage)) div 255
      \<and> real_of_int (uint (Channels_R (blend_pixel coverage color dest)))
          \<le> blend_equation (uint coverage) (col_r color) (uint (Channels_R dest)) + 1 / 2 ^ 17
      \<and> blend_equation (uint coverage) (col_r color) (uint (Channels_R dest))
          < real_of_int (uint (Channels_R (blend_pixel coverage color dest))) + 2 + 1 / 2 ^ 17
      \<and> real_of_int (uint (Channels_G (blend_pixel coverage color dest)))
          \<le> blend_equation (uint coverage) (col_g color) (uint (Channels_G dest)) + 1 / 2 ^ 17
      \<and> blend_equation (uint coverage) (col_g color) (uint (Channels_G dest))
          < real_of_int (uint (Channels_G (blend_pixel coverage color dest))) + 2 + 1 / 2 ^ 17
      \<and> real_of_int (uint (Channels_B (blend_pixel coverage color dest)))
          \<le> blend_equation (uint coverage) (col_b color) (uint (Channels_B dest)) + 1 / 2 ^ 17
      \<and> blend_equation (uint coverage) (col_b color) (uint (Channels_B dest))
          < real_of_int (uint (Channels_B (blend_pixel coverage color dest))) + 2 + 1 / 2 ^ 17
      \<and> real_of_int (uint (Channels_A (blend_pixel coverage color dest)))
          \<le> blend_equation (uint coverage) (col_a color) (uint (Channels_A dest)) + 1 / 2 ^ 17
      \<and> blend_equation (uint coverage) (col_a color) (uint (Channels_A dest))
          < real_of_int (uint (Channels_A (blend_pixel coverage color dest))) + 2 + 1 / 2 ^ 17"
proof -
  let ?px = "blend_pixel coverage color dest"
  let ?m' = "((fst m)[nat (destImageRow + destX) := ?px], nat (destImageRow + destX) # snd m)"
  from ld have rng: "0 \<le> destImageRow + destX" "destImageRow + destX < int (length (fst m))"
    by (simp_all add: load_def split: if_splits)
  then have st: "store m (destImageRow + destX) ?px = Inr ?m'"
    by (simp add: store_def)
  have noskip: "\<not> (destX < 0 \<or> destX \<ge> width img \<or> destX < offset_x rect
               \<or> destX \<ge> int32 (offset_x rect + extent_width rect))"
    using ins by simp
  have step: "PutText_cols img rect font bakedChar color xadv srcGlyphRow destImageRow
                 characterWidth cx m
          = PutText_cols img rect font bakedChar color xadv srcGlyphRow destImageRow characterWidth
              (cx + 1) ?m'"
    using cx noskip g ld st unfolding dx
    by (subst PutText_cols.simps) (simp add: Let_def)
  have at: "fst ?m' ! nat (destImageRow + destX) = ?px"
    using rng by simp
  have ch: "Channels_R ?px = blend_channel coverage (col_r color) (Channels_R dest)"
    "Channels_G ?px = blend_channel coverage (col_g color) (Channels_G dest)"
    "Channels_B ?px = blend_channel coverage (col_b color) (Channels_B dest)"
    "Channels_A ?px = blend_channel coverage (col_a color) (Channels_A dest)"
    by (simp_all add: blend_pixel_def)
  show ?thesis
    unfolding ch
    using st step at
      blend_channel_value[OF r] blend_channel_value[OF gr] blend_channel_value[OF b]
      blend_channel_value[OF a]
      blend_channel_bounds[OF r] blend_channel_bounds[OF gr] blend_channel_bounds[OF b]
      blend_channel_bounds[OF a]
    by (intro exI[of _ ?m'] conjI) (simp_all only: ch)
qed

theorem PutText_composites_truncated_blend_witness:
  "(0::int) < 2 \<and> (1::int) = int32 (int32 (lround (bc_xoff block_char + 1)) + 0)
   \<and> (1::int) < width image_4x3 \<and> offset_x rect_1_0_2_3 \<le> 1
   \<and> 1 < int32 (offset_x rect_1_0_2_3 + extent_width rect_1_0_2_3)
   \<and> glyph_load grey_font (0 + (0 + int (bc_x0 block_char))) = Inr 100
   \<and> load (pixels image_4x3, []) (0 + 1) = Inr (shade 1)
   \<and> 0 \<le> col_g orange \<and> col_g orange \<le> 1
   \<and> (\<exists>m'. store (pixels image_4x3, []) (0 + 1) (blend_pixel 100 orange (shade 1)) = Inr m'
         \<and> fst m' ! nat (0 + 1) = blend_pixel 100 orange (shade 1))
   \<and> uint (Channels_R (blend_pixel 100 orange (shade 1))) = 100
   \<and> uint (Channels_G (blend_pixel 100 orange (shade 1))) = 50
   \<and> uint (Channels_B (blend_pixel 100 orange (shade 1))) = 0
   \<and> uint (Channels_A (blend_pixel 100 orange (shade 1))) = 255"
proof -
  have h: "(0::int) < 2" "(1::int) = int32 (int32 (lround (bc_xoff block_char + 1)) + 0)"
    "(0::int) \<le> 1" "(1::int) < width image_4x3" "offset_x rect_1_0_2_3 \<le> 1"
    "1 < int32 (offset_x rect_1_0_2_3 + extent_width rect_1_0_2_3)"
    by (simp_all add: lround_def int32_def block_char_def image_4x3_def rect_1_0_2_3_def)
  have g: "glyph_load grey_font (0 + (0 + int (bc_x0 block_char))) = Inr 100"
    by (simp add: glyph_load_def grey_font_def block_char_def)
  have ld: "load (pixels image_4x3, []) (0 + 1) = Inr (shade 1)"
    by (simp add: load_def image_4x3_def)
  have n: "0 \<le> col_r orange" "col_r orange \<le> 1" "0 \<le> col_g orange" "col_g orange \<le> 1"
    "0 \<le> col_b orange" "col_b orange \<le> 1" "0 \<le> col_a orange" "col_a orange \<le> 1"
    by (simp_all add: orange_def)
  from PutText_composites_truncated_blend[OF h(1) h(2) h(3) h(4) h(5) h(6) g ld n]
  obtain m' where
    st: "store (pixels image_4x3, []) (0 + 1) (blend_pixel 100 orange (shade 1)) = Inr m'"
    and at: "fst m' ! nat (0 + 1) = blend_pixel 100 orange (shade 1)"
    and cr: "uint (Channels_R (blend_pixel 100 orange (shade 1)))
          = \<lfloor>fl32 (real_of_int (uint (100 :: 8 word)) * col_r orange)\<rfloor>
            + (uint (Channels_R (shade 1)) * (255 - uint (100 :: 8 word))) div 255"
    and cg: "uint (Channels_G (blend_pixel 100 orange (shade 1)))
          = \<lfloor>fl32 (real_of_int (uint (100 :: 8 word)) * col_g orange)\<rfloor>
            + (uint (Channels_G (shade 1)) * (255 - uint (100 :: 8 word))) div 255"
    and cb: "uint (Channels_B (blend_pixel 100 orange (shade 1)))
          = \<lfloor>fl32 (real_of_int (uint (100 :: 8 word)) * col_b orange)\<rfloor>
            + (uint (Channels_B (shade 1)) * (255 - uint (100 :: 8 word))) div 255"
    and ca: "uint (Channels_A (blend_pixel 100 orange (shade 1)))
          = \<lfloor>fl32 (real_of_int (uint (100 :: 8 word)) * col_a orange)\<rfloor>
            + (uint (Channels_A (shade 1)) * (255 - uint (100 :: 8 word))) div 255"
    by blast
  have v: "uint (Channels_R (blend_pixel 100 orange (shade 1))) = 100"
    "uint (Channels_G (blend_pixel 100 orange (shade 1))) = 50"
    "uint (Channels_B (blend_pixel 100 orange (shade 1))) = 0"
    "uint (Channels_A (blend_pixel 100 orange (shade 1))) = 255"
    unfolding cr cg cb ca
    by (simp_all add: orange_def shade_def fl32_def fl32_pos_def binade_def round_even_def
        ilog2.simps Let_def)
  show ?thesis using h g ld n st at v by blast
qed

lemma PutText_grey_a:
  "fst (PutText (\<lambda>h. Inr grey_font) [] image_4x3 rect_1_0_2_3 ''a'' 2 orange Enabled)
     = Inr (image_4x3\<lparr>pixels :=
              [shade 0,
               \<lparr>Channels_R = 100, Channels_G = 50, Channels_B = 0, Channels_A = 255\<rparr>,
               \<lparr>Channels_R = 101, Channels_G = 50, Channels_B = 0, Channels_A = 255\<rparr>,
               shade 3, shade 4, shade 5, shade 6, shade 7, shade 8, shade 9, shade 10,
               shade 11]\<rparr>, [2, 1], [])"
  by (simp add: PutText_def GetOrCreate_def PutText_start_def
      PutText_rows.simps PutText_cols.simps WordWrap_word_def WordWrap_char_def
      GetBakedChar_def GetBakedCharRow_def StartChar_def EndChar_def char_value_def
      grey_font_def block_char_def glyph_load_def load_def store_def blend_pixel_def
      blend_channel_def float_to_uint8_def float_to_int_def lround_def int32_def
      fl32_def fl32_pos_def binade_def round_even_def ilog2.simps
      image_4x3_def rect_1_0_2_3_def orange_def shade_def Let_def)

section \<open>The swapchain and the font cache\<close>



text \<open>
  C8. \<open>GetOrCreate\<close> builds a font at every call: two requests for the same pixel height
  construct two fonts and return two different objects.
\<close>

theorem GetOrCreate_builds_every_time:
  "GetOrCreate bake_block [] 32 = (Inr 0, [block_font])
   \<and> GetOrCreate bake_block (snd (GetOrCreate bake_block [] 32)) 32
       = (Inr 1, [block_font, block_font])"
  by (simp add: GetOrCreate_def bake_block_def)

section \<open>Concurrent loads\<close>

text \<open>
  C9, as stated: two calls of \<open>Load\<close> on the same path whose sections alternate both
  miss the cache, both decode the file, and both return the image inserted first.
\<close>

theorem Load_concurrent_decodes_twice:
  "run [0, 1, 0, 1, 0, 1] (ready_process, [Entry ''a.png'', Entry ''a.png''])
     = (ready_process\<lparr>cache := \<lparr>m_cacheMutex = True, m_imageCache = [''a.png'' \<mapsto> 0]\<rparr>,
                      next_object := 2, decodes := [''a.png'', ''a.png'']\<rparr>,
        [Returned ''a.png'' 0, Returned ''a.png'' 0])"
  by (simp add: step_def ready_process_def fresh_process_def Init_def IsValid_def
      Load_lookup_def Load_decode_def Load_emplace_def)

lemma advance_cache_mono:
  "advance c s = (c', s') \<Longrightarrow> m_imageCache (cache s) p = Some q \<Longrightarrow>
   m_imageCache (cache s') p = Some q"
  by (cases c)
     (auto simp: Load_lookup_def Load_decode_def Load_emplace_def split: if_splits option.splits)

lemma advance_returned:
  "advance c s = (c', s') \<Longrightarrow>
   (\<And>p q. c = Returned p q \<Longrightarrow> m_imageCache (cache s) p = Some q) \<Longrightarrow>
   c' = Returned p q \<Longrightarrow> m_imageCache (cache s') p = Some q"
  by (cases c)
     (auto simp: Load_lookup_def Load_decode_def Load_emplace_def split: if_splits option.splits)

lemma step_returned_in_cache:
  assumes inv: "returned_in_cache sys"
  shows "returned_in_cache (step i sys)"
proof (cases "i < length (snd sys)")
  case False
  with inv show ?thesis by (simp add: step_def)
next
  case True
  obtain c' s' where adv: "advance (snd sys ! i) (fst sys) = (c', s')"
    by (cases "advance (snd sys ! i) (fst sys)")
  have st: "step i sys = (s', (snd sys)[i := c'])"
    using True adv by (simp add: step_def)
  have old: "\<And>c p q. c \<in> set (snd sys) \<Longrightarrow> c = Returned p q \<Longrightarrow>
               m_imageCache (cache (fst sys)) p = Some q"
    using inv by (auto simp: returned_in_cache_def)
  have mem: "snd sys ! i \<in> set (snd sys)" using True by simp
  show ?thesis
    unfolding st returned_in_cache_def
  proof (intro ballI allI impI)
    fix c p q
    assume c: "c \<in> set (snd (s', (snd sys)[i := c']))" and r: "c = Returned p q"
    from c have "c = c' \<or> c \<in> set (snd sys)"
      using set_update_subset_insert[of "snd sys" i c'] by auto
    then show "m_imageCache (cache (fst (s', (snd sys)[i := c']))) p = Some q"
    proof
      assume "c = c'"
      with r have "c' = Returned p q" by simp
      from advance_returned[OF adv old[OF mem] this] show ?thesis by simp
    next
      assume "c \<in> set (snd sys)"
      from advance_cache_mono[OF adv old[OF this r]] show ?thesis by simp
    qed
  qed
qed

lemma run_returned_in_cache:
  "returned_in_cache sys \<Longrightarrow> returned_in_cache (run sched sys)"
  by (induction sched arbitrary: sys) (simp_all add: step_returned_in_cache)

lemma length_step [simp]: "length (snd (step i sys)) = length (snd sys)"
  by (simp add: step_def split: prod.splits)

lemma length_run [simp]: "length (snd (run sched sys)) = length (snd sys)"
  by (induction sched arbitrary: sys) simp_all

lemma sum_list_map_update_le:
  fixes f g :: "'a \<Rightarrow> nat"
  assumes le: "\<And>x. g x \<le> f x"
  shows "i < length xs \<Longrightarrow>
         sum_list (map g (xs[i := y])) + f (xs ! i) \<le> sum_list (map f xs) + g y"
proof (induction xs arbitrary: i)
  case Nil
  then show ?case by simp
next
  case (Cons x xs)
  show ?case
  proof (cases i)
    case 0
    have "sum_list (map g xs) \<le> sum_list (map f xs)"
      by (intro sum_list_mono) (simp add: le)
    with 0 show ?thesis by simp
  next
    case (Suc k)
    with Cons.prems have "k < length xs" by simp
    from Cons.IH[OF this] le[of x] Suc show ?thesis by simp
  qed
qed

lemma may_decode_mono:
  "advance c s = (c', s') \<Longrightarrow> may_decode s' p x \<le> may_decode s p x"
  by (cases c; cases x)
     (auto simp: Load_lookup_def Load_decode_def Load_emplace_def IsValid_def
       split: if_splits option.splits)

lemma advance_decodes:
  "advance c s = (c', s') \<Longrightarrow>
   count_list (decodes s') p + may_decode s' p c' \<le> count_list (decodes s) p + may_decode s p c"
  by (cases c)
     (auto simp: Load_lookup_def Load_decode_def Load_emplace_def IsValid_def
       split: if_splits option.splits)

lemma step_decodes:
  "count_list (decodes (fst (step i sys))) p
     + sum_list (map (may_decode (fst (step i sys)) p) (snd (step i sys)))
     \<le> count_list (decodes (fst sys)) p + sum_list (map (may_decode (fst sys) p) (snd sys))"
proof (cases "i < length (snd sys)")
  case False
  then show ?thesis by (simp add: step_def)
next
  case True
  obtain c' s' where adv: "advance (snd sys ! i) (fst sys) = (c', s')"
    by (cases "advance (snd sys ! i) (fst sys)")
  have st: "step i sys = (s', (snd sys)[i := c'])"
    using True adv by (simp add: step_def)
  have "sum_list (map (may_decode s' p) ((snd sys)[i := c'])) + may_decode (fst sys) p (snd sys ! i)
          \<le> sum_list (map (may_decode (fst sys) p) (snd sys)) + may_decode s' p c'"
    using may_decode_mono[OF adv] True by (intro sum_list_map_update_le) simp_all
  with advance_decodes[OF adv, of p] show ?thesis unfolding st by simp
qed

lemma run_decodes:
  "count_list (decodes (fst (run sched sys))) p
     + sum_list (map (may_decode (fst (run sched sys)) p) (snd (run sched sys)))
     \<le> count_list (decodes (fst sys)) p + sum_list (map (may_decode (fst sys) p) (snd sys))"
proof (induction sched arbitrary: sys)
  case Nil
  then show ?case by simp
next
  case (Cons i sched)
  from Cons.IH[of "step i sys"] step_decodes[of i sys p]
  show ?case by simp
qed

lemma step_cached:
  assumes "IsValid (cache (fst sys))" "m_imageCache (cache (fst sys)) p = Some q"
    "\<forall>c \<in> set (snd sys). c = Entry p \<or> c = Returned p q"
  shows "fst (step i sys) = fst sys
         \<and> (\<forall>c \<in> set (snd (step i sys)). c = Entry p \<or> c = Returned p q)"
proof (cases "i < length (snd sys)")
  case False
  with assms show ?thesis by (simp add: step_def)
next
  case True
  then have "snd sys ! i = Entry p \<or> snd sys ! i = Returned p q"
    using assms(3) by simp
  then have adv: "advance (snd sys ! i) (fst sys) = (Returned p q, fst sys)"
    using assms(1) assms(2) by (auto simp: Load_lookup_def)
  have st: "step i sys = (fst sys, (snd sys)[i := Returned p q])"
    using True adv by (simp add: step_def)
  have "\<forall>c \<in> set ((snd sys)[i := Returned p q]). c = Entry p \<or> c = Returned p q"
    using set_update_subset_insert[of "snd sys" i "Returned p q"] assms(3) by auto
  then show ?thesis unfolding st by simp
qed

lemma run_cached:
  "IsValid (cache (fst sys)) \<Longrightarrow> m_imageCache (cache (fst sys)) p = Some q \<Longrightarrow>
   \<forall>c \<in> set (snd sys). c = Entry p \<or> c = Returned p q \<Longrightarrow>
   fst (run sched sys) = fst sys
   \<and> (\<forall>c \<in> set (snd (run sched sys)). c = Entry p \<or> c = Returned p q)"
proof (induction sched arbitrary: sys)
  case Nil
  then show ?case by simp
next
  case (Cons i sched)
  from step_cached[OF Cons.prems, of i]
  have f: "fst (step i sys) = fst sys"
    and c: "\<forall>c \<in> set (snd (step i sys)). c = Entry p \<or> c = Returned p q"
    by simp_all
  from Cons.IH[of "step i sys"] Cons.prems(1) Cons.prems(2) f c
  show ?case by simp
qed

lemma advance_remaining:
  "advance c s = (c', s') \<Longrightarrow> remaining c' \<le> remaining c - 1"
  by (cases c)
     (auto simp: Load_lookup_def Load_decode_def Load_emplace_def split: if_splits option.splits)

lemma step_other: "j \<noteq> i \<Longrightarrow> snd (step i sys) ! j = snd sys ! j"
  by (simp add: step_def split: prod.splits)

lemma step_remaining:
  "i < length (snd sys) \<Longrightarrow> remaining (snd (step i sys) ! i) \<le> remaining (snd sys ! i) - 1"
  by (auto simp: step_def split: prod.splits dest: advance_remaining)

lemma run_remaining:
  "j < length (snd sys) \<Longrightarrow>
   remaining (snd (run sched sys) ! j) \<le> remaining (snd sys ! j) - count_list sched j"
proof (induction sched arbitrary: sys)
  case Nil
  then show ?case by simp
next
  case (Cons i sched)
  have len: "j < length (snd (step i sys))" using Cons.prems by simp
  note ih = Cons.IH[OF len]
  show ?case
  proof (cases "i = j")
    case True
    with step_remaining[of j sys] Cons.prems ih show ?thesis by simp
  next
    case False
    then have "snd (step i sys) ! j = snd sys ! j" by (simp add: step_other)
    with ih False show ?thesis by simp
  qed
qed

lemma advance_running:
  "IsValid (cache s) \<Longrightarrow> decodable s p \<Longrightarrow> running_on p c \<Longrightarrow> advance c s = (c', s') \<Longrightarrow>
   running_on p c' \<and> IsValid (cache s') \<and> decodable s' p"
  by (cases c)
     (auto simp: Load_lookup_def Load_decode_def Load_emplace_def IsValid_def
       split: if_splits option.splits)

lemma advance_valid:
  "IsValid (cache s) \<Longrightarrow> decodable s p \<Longrightarrow> advance c s = (c', s') \<Longrightarrow>
   IsValid (cache s') \<and> decodable s' p"
  by (cases c)
     (auto simp: Load_lookup_def Load_decode_def Load_emplace_def IsValid_def
       split: if_splits option.splits)

lemma step_running:
  assumes "IsValid (cache (fst sys))" "decodable (fst sys) p"
    "\<forall>c \<in> set (snd sys). running_on p c"
  shows "IsValid (cache (fst (step i sys))) \<and> decodable (fst (step i sys)) p
         \<and> (\<forall>c \<in> set (snd (step i sys)). running_on p c)"
proof (cases "i < length (snd sys)")
  case False
  with assms show ?thesis by (simp add: step_def)
next
  case True
  obtain c' s' where adv: "advance (snd sys ! i) (fst sys) = (c', s')"
    by (cases "advance (snd sys ! i) (fst sys)")
  have st: "step i sys = (s', (snd sys)[i := c'])"
    using True adv by (simp add: step_def)
  have "running_on p (snd sys ! i)" using assms(3) True by simp
  from advance_running[OF assms(1) assms(2) this adv]
  have r: "running_on p c'" and v: "IsValid (cache s')" and d: "decodable s' p"
    by simp_all
  have "\<forall>c \<in> set ((snd sys)[i := c']). running_on p c"
    using set_update_subset_insert[of "snd sys" i c'] r assms(3) by auto
  with v d show ?thesis unfolding st by simp
qed

lemma run_running:
  "IsValid (cache (fst sys)) \<Longrightarrow> decodable (fst sys) p \<Longrightarrow>
   \<forall>c \<in> set (snd sys). running_on p c \<Longrightarrow>
   \<forall>c \<in> set (snd (run sched sys)). running_on p c"
proof (induction sched arbitrary: sys)
  case Nil
  then show ?case by simp
next
  case (Cons i sched)
  from step_running[OF Cons.prems, of i] Cons.IH[of "step i sys"]
  show ?case by simp
qed

lemma returned_in_cacheD:
  "returned_in_cache sys \<Longrightarrow> Returned p q \<in> set (snd sys) \<Longrightarrow>
   m_imageCache (cache (fst sys)) p = Some q"
  unfolding returned_in_cache_def by blast

lemma finished_running: "remaining c = 0 \<Longrightarrow> running_on p c \<Longrightarrow> \<exists>q. c = Returned p q"
  by (cases c) simp_all

lemma Load_hit_again:
  assumes "fst (Load s p) = Inr q"
  shows "Load (snd (Load s p)) p = (Inr q, snd (Load s p))"
proof -
  have v: "IsValid (cache s)"
    using assms Load_invalid[of s p] by (cases "IsValid (cache s)") auto
  show ?thesis
  proof (cases "m_imageCache (cache s) p")
    case (Some r)
    from Load_valid_hit[OF v Some] assms show ?thesis by simp
  next
    case None
    with v assms have d: "decodable s p"
      by (simp add: Load_valid_miss split: if_splits)
    have l: "Load s p = (Inr (next_object s),
               s\<lparr>next_object := Suc (next_object s), decodes := decodes s @ [p],
                  cache := (cache s)\<lparr>m_imageCache := (m_imageCache (cache s))(p \<mapsto> next_object s)\<rparr>\<rparr>)"
      using v None d
      by (simp add: Load_def Load_lookup_def Load_decode_def Load_emplace_def)
    with assms have q: "q = next_object s" by simp
    show ?thesis
      unfolding l q using v
      by (intro Load_valid_hit) (simp_all add: IsValid_def)
  qed
qed

text \<open>
  C9, as amended. \<open>N\<close> calls of \<open>Load\<close> on the same path, their sections interleaved by
  any schedule. Any two calls that return, return the same image. A call decodes at most
  once, and only when it looked the path up before the cache held it: from any state the
  path is decoded at most once more per call that has missed, or that has not yet looked
  it up while the cache does not hold it. So when the cache holds the path nothing is
  decoded and every call that runs returns the cached image, and a second \<open>Load\<close> after
  one that returned changes nothing. On an initialised cache, with a file that decodes,
  once every call has run its three sections all \<open>N\<close> calls have returned one and the
  same image.
\<close>

theorem Load_concurrent_same_image:
  "(\<forall>i j q r. i < N \<and> j < N
       \<and> snd (run sched (s, replicate N (Entry p))) ! i = Returned p q
       \<and> snd (run sched (s, replicate N (Entry p))) ! j = Returned p r \<longrightarrow> q = r)
   \<and> count_list (decodes (fst (run sched (s, cs)))) p
       \<le> count_list (decodes s) p + sum_list (map (may_decode s p) cs)
   \<and> (IsValid (cache s) \<and> m_imageCache (cache s) p = Some q0 \<longrightarrow>
        fst (run sched (s, replicate N (Entry p))) = s
        \<and> (\<forall>i < N. 1 \<le> count_list sched i \<longrightarrow>
              snd (run sched (s, replicate N (Entry p))) ! i = Returned p q0))
   \<and> (fst (Load s p) = Inr q1 \<longrightarrow> Load (snd (Load s p)) p = (Inr q1, snd (Load s p)))
   \<and> (IsValid (cache s) \<and> decodable s p \<and> (\<forall>i < N. 3 \<le> count_list sched i) \<longrightarrow>
        (\<exists>q. snd (run sched (s, replicate N (Entry p))) = replicate N (Returned p q)))"
proof -
  let ?sys = "(s, replicate N (Entry p))"
  let ?fin = "run sched ?sys"
  have inv0: "returned_in_cache ?sys" by (simp add: returned_in_cache_def)
  have inv: "returned_in_cache ?fin" by (rule run_returned_in_cache[OF inv0])
  have len: "length (snd ?fin) = N" by simp
  have A: "\<forall>i j q r. i < N \<and> j < N \<and> snd ?fin ! i = Returned p q
              \<and> snd ?fin ! j = Returned p r \<longrightarrow> q = r"
  proof (intro allI impI)
    fix i j q r
    assume a: "i < N \<and> j < N \<and> snd ?fin ! i = Returned p q \<and> snd ?fin ! j = Returned p r"
    then have "Returned p q \<in> set (snd ?fin)" "Returned p r \<in> set (snd ?fin)"
      using len nth_mem[of i "snd ?fin"] nth_mem[of j "snd ?fin"] by auto
    then have "m_imageCache (cache (fst ?fin)) p = Some q"
      "m_imageCache (cache (fst ?fin)) p = Some r"
      using returned_in_cacheD[OF inv] by blast+
    then show "q = r" by simp
  qed
  have B: "count_list (decodes (fst (run sched (s, cs)))) p
       \<le> count_list (decodes s) p + sum_list (map (may_decode s p) cs)"
    using run_decodes[of sched "(s, cs)" p] by simp
  have C: "IsValid (cache s) \<and> m_imageCache (cache s) p = Some q0 \<longrightarrow>
        fst ?fin = s \<and> (\<forall>i < N. 1 \<le> count_list sched i \<longrightarrow> snd ?fin ! i = Returned p q0)"
  proof (intro impI)
    assume a: "IsValid (cache s) \<and> m_imageCache (cache s) p = Some q0"
    have e: "\<forall>c \<in> set (snd ?sys). c = Entry p \<or> c = Returned p q0" by simp
    from run_cached[of ?sys p q0 sched] a e
    have f: "fst ?fin = s" and c: "\<forall>c \<in> set (snd ?fin). c = Entry p \<or> c = Returned p q0"
      by simp_all
    have "\<forall>i < N. 1 \<le> count_list sched i \<longrightarrow> snd ?fin ! i = Returned p q0"
    proof (intro allI impI)
      fix i assume i: "i < N" and n: "1 \<le> count_list sched i"
      from run_remaining[of i ?sys sched] i n
      have "remaining (snd ?fin ! i) \<le> 2" by simp
      then have "snd ?fin ! i \<noteq> Entry p" by auto
      moreover have "snd ?fin ! i \<in> set (snd ?fin)" using i len by simp
      ultimately show "snd ?fin ! i = Returned p q0" using c by blast
    qed
    with f show "fst ?fin = s
        \<and> (\<forall>i < N. 1 \<le> count_list sched i \<longrightarrow> snd ?fin ! i = Returned p q0)"
      by simp
  qed
  have E: "fst (Load s p) = Inr q1 \<longrightarrow> Load (snd (Load s p)) p = (Inr q1, snd (Load s p))"
    using Load_hit_again[of s p q1] by blast
  have D: "IsValid (cache s) \<and> decodable s p \<and> (\<forall>i < N. 3 \<le> count_list sched i) \<longrightarrow>
        (\<exists>q. snd ?fin = replicate N (Returned p q))"
  proof (intro impI)
    assume a: "IsValid (cache s) \<and> decodable s p \<and> (\<forall>i < N. 3 \<le> count_list sched i)"
    have run0: "\<forall>c \<in> set (snd ?sys). running_on p c" by simp
    from run_running[of ?sys p sched] a run0
    have running: "\<forall>c \<in> set (snd ?fin). running_on p c" by simp
    have ret: "\<forall>i < N. \<exists>q. snd ?fin ! i = Returned p q"
    proof (intro allI impI)
      fix i assume i: "i < N"
      from run_remaining[of i ?sys sched] i a
      have "remaining (snd ?fin ! i) = 0" by simp
      moreover have "running_on p (snd ?fin ! i)"
        using running i len nth_mem[of i "snd ?fin"] by auto
      ultimately show "\<exists>q. snd ?fin ! i = Returned p q" by (rule finished_running)
    qed
    show "\<exists>q. snd ?fin = replicate N (Returned p q)"
    proof (cases "N = 0")
      case True
      with len have "length (snd ?fin) = 0" by (simp only:)
      then have "snd ?fin = []" by (simp only: length_0_conv)
      with True show ?thesis by simp
    next
      case False
      then have z: "0 < N" by simp
      from ret z obtain q where q: "snd ?fin ! 0 = Returned p q" by blast
      have "\<forall>i < N. snd ?fin ! i = Returned p q"
      proof (intro allI impI)
        fix i assume i: "i < N"
        from ret i obtain r where r: "snd ?fin ! i = Returned p r" by blast
        from A z i q r have "q = r" by blast
        with r show "snd ?fin ! i = Returned p q" by simp
      qed
      then have "snd ?fin = replicate N (Returned p q)"
        using len by (intro nth_equalityI) simp_all
      then show ?thesis by blast
    qed
  qed
  from A B C E D show ?thesis by (intro conjI)
qed

theorem Load_concurrent_same_image_witness:
  "IsValid (cache ready_process) \<and> decodable ready_process ''a.png''
   \<and> 3 \<le> count_list [0, 1, 0, 1, 0, 1 :: nat] 0 \<and> 3 \<le> count_list [0, 1, 0, 1, 0, 1 :: nat] 1
   \<and> (\<exists>q. snd (run [0, 1, 0, 1, 0, 1] (ready_process, replicate 2 (Entry ''a.png'')))
            = replicate 2 (Returned ''a.png'' q))
   \<and> count_list (decodes (fst (run [0, 1, 0, 1, 0, 1]
         (ready_process, replicate 2 (Entry ''a.png''))))) ''a.png'' \<le> 2
   \<and> IsValid (cache cached_process) \<and> m_imageCache (cache cached_process) ''a.png'' = Some 0
   \<and> fst (run [1, 0] (cached_process, replicate 2 (Entry ''a.png''))) = cached_process
   \<and> snd (run [1, 0] (cached_process, replicate 2 (Entry ''a.png''))) ! 0 = Returned ''a.png'' 0
   \<and> snd (run [1, 0] (cached_process, replicate 2 (Entry ''a.png''))) ! 1 = Returned ''a.png'' 0
   \<and> count_list (decodes (fst (run [1, 0] (cached_process, replicate 2 (Entry ''a.png'')))))
        ''a.png'' \<le> count_list (decodes cached_process) ''a.png''
   \<and> fst (Load ready_process ''a.png'') = Inr 0
   \<and> Load (snd (Load ready_process ''a.png'')) ''a.png''
       = (Inr 0, snd (Load ready_process ''a.png''))"
proof -
  have v: "IsValid (cache ready_process)" "decodable ready_process ''a.png''"
    by (simp_all add: ready_process_def fresh_process_def IsValid_def Init_def)
  have c: "3 \<le> count_list [0, 1, 0, 1, 0, 1 :: nat] 0" "3 \<le> count_list [0, 1, 0, 1, 0, 1 :: nat] 1"
    by simp_all
  have all: "\<forall>i < 2. 3 \<le> count_list [0, 1, 0, 1, 0, 1 :: nat] i"
    using c by (auto simp: less_Suc_eq numeral_2_eq_2)
  have md: "sum_list (map (may_decode ready_process ''a.png'') (replicate 2 (Entry ''a.png''))) = 2"
    using v(1)
    by (simp add: numeral_2_eq_2 ready_process_def fresh_process_def Init_def)
  have d0: "count_list (decodes ready_process) ''a.png'' = 0"
    by (simp add: ready_process_def fresh_process_def)
  note T1 = Load_concurrent_same_image[of 2 "[0, 1, 0, 1, 0, 1]" ready_process "''a.png''"
      "replicate 2 (Entry ''a.png'')" 0 0]
  from T1 v all have live:
    "\<exists>q. snd (run [0, 1, 0, 1, 0, 1] (ready_process, replicate 2 (Entry ''a.png'')))
            = replicate 2 (Returned ''a.png'' q)"
    by blast
  from T1 md d0 have bound: "count_list (decodes (fst (run [0, 1, 0, 1, 0, 1]
         (ready_process, replicate 2 (Entry ''a.png''))))) ''a.png'' \<le> 2"
    by simp
  have l0: "fst (Load ready_process ''a.png'') = Inr 0"
    by (simp add: Load_ready_process)
  from T1 l0 have again: "Load (snd (Load ready_process ''a.png'')) ''a.png''
       = (Inr 0, snd (Load ready_process ''a.png''))"
    by blast
  have cv: "IsValid (cache cached_process)" "m_imageCache (cache cached_process) ''a.png'' = Some 0"
    by (simp_all add: cached_process_def IsValid_def)
  have once: "1 \<le> count_list [1, 0 :: nat] 0" "1 \<le> count_list [1, 0 :: nat] 1" "(0::nat) < 2"
    "(1::nat) < 2"
    by simp_all
  have md2: "sum_list (map (may_decode cached_process ''a.png'') (replicate 2 (Entry ''a.png''))) = 0"
    using cv by (simp add: numeral_2_eq_2)
  note T2 = Load_concurrent_same_image[of 2 "[1, 0]" cached_process "''a.png''"
      "replicate 2 (Entry ''a.png'')" 0 0]
  from T2 cv have same: "fst (run [1, 0] (cached_process, replicate 2 (Entry ''a.png''))) = cached_process"
    and ret: "\<forall>i < 2. 1 \<le> count_list [1, 0 :: nat] i \<longrightarrow>
              snd (run [1, 0] (cached_process, replicate 2 (Entry ''a.png''))) ! i
                = Returned ''a.png'' 0"
    by blast+
  from ret once have r0:
    "snd (run [1, 0] (cached_process, replicate 2 (Entry ''a.png''))) ! 0 = Returned ''a.png'' 0"
    and r1:
    "snd (run [1, 0] (cached_process, replicate 2 (Entry ''a.png''))) ! 1 = Returned ''a.png'' 0"
    by blast+
  from T2 have "count_list (decodes (fst (run [1, 0]
          (cached_process, replicate 2 (Entry ''a.png''))))) ''a.png''
        \<le> count_list (decodes cached_process) ''a.png''
          + sum_list (map (may_decode cached_process ''a.png'') (replicate 2 (Entry ''a.png'')))"
    by blast
  then have nodec:
    "count_list (decodes (fst (run [1, 0] (cached_process, replicate 2 (Entry ''a.png'')))))
        ''a.png'' \<le> count_list (decodes cached_process) ''a.png''"
    unfolding md2 by (simp only: add_0_right)
  show ?thesis using v c live bound cv same r0 r1 nodec l0 again by blast
qed

end
